theory Spec2Isabelle
  imports Main "HOL-Library.Word"
begin

unbundle bit_operations_syntax

section \<open>Bytes, words and C strings\<close>

text \<open>
  The client keeps its messages in arrays of \<open>uint32_t\<close> and copies strings into them with
  \<open>memcpy\<close>, so the arrays are modelled as lists of bytes and a word is stored in the
  host's byte order (little-endian, as on the ARM and x86 targets of the repository).
\<close>

type_synonym byte = "8 word"
type_synonym uint32_t = "32 word"

definition store_word :: "uint32_t \<Rightarrow> byte list" where
  "store_word w = [ucast w, ucast (drop_bit 8 w), ucast (drop_bit 16 w), ucast (drop_bit 24 w)]"

definition load_word :: "byte list \<Rightarrow> uint32_t" where
  "load_word bs = (case bs of
      [b0, b1, b2, b3] \<Rightarrow>
        ucast b0 OR push_bit 8 (ucast b1) OR push_bit 16 (ucast b2) OR push_bit 24 (ucast b3)
    | _ \<Rightarrow> 0)"

text \<open>
  A local array that the C code does not initialise holds whatever the stack held:
  \<open>junk i\<close> is the byte found at index \<open>i\<close>.
\<close>

definition uninitialised :: "(nat \<Rightarrow> byte) \<Rightarrow> nat \<Rightarrow> byte list" where
  "uninitialised junk n = map junk [0..<n]"

definition write_bytes :: "byte list \<Rightarrow> nat \<Rightarrow> byte list \<Rightarrow> byte list" where
  "write_bytes buf off bs = take off buf @ bs @ drop (off + length bs) buf"

definition read_bytes :: "byte list \<Rightarrow> nat \<Rightarrow> nat \<Rightarrow> byte list" where
  "read_bytes buf off n = take n (drop off buf)"

definition read_word :: "byte list \<Rightarrow> nat \<Rightarrow> uint32_t" where
  "read_word buf off = load_word (read_bytes buf off 4)"

text \<open>
  Modelled from the spec: the macro \<open>DIV_ROUNDUP\<close> of \<open>wayland-util.h\<close> is not under src/.
  It counts the words that hold \<open>n\<close> bytes ("padded to a 4-byte boundary").
\<close>

definition DIV_ROUNDUP :: "nat \<Rightarrow> nat \<Rightarrow> nat" where
  "DIV_ROUNDUP n a = (n + (a - 1)) div a"

text \<open>
  A \<open>char *\<close> points at bytes that end at the first NUL: \<open>strlen\<close> counts the bytes before
  it, and \<open>strcmp\<close> returns 0 exactly when the bytes before it agree.
\<close>

definition strlen :: "byte list \<Rightarrow> nat" where
  "strlen s = length (takeWhile (\<lambda>b. b \<noteq> 0) s)"

definition strcmp_eq0 :: "byte list \<Rightarrow> byte list \<Rightarrow> bool" where
  "strcmp_eq0 a b = (takeWhile (\<lambda>c. c \<noteq> 0) a = takeWhile (\<lambda>c. c \<noteq> 0) b)"

definition cstr :: "string \<Rightarrow> byte list" where
  "cstr s = map (\<lambda>c. of_nat (of_char c)) s"

definition strlen_sig :: "string \<Rightarrow> nat" where
  "strlen_sig s = length (takeWhile (\<lambda>c. c \<noteq> CHR 0x00) s)"

section \<open>Data model\<close>

text \<open>
  What can end a call other than its return: \<open>exit(EXIT_FAILURE)\<close>, a failed \<open>assert\<close>,
  and the accesses that C leaves undefined (outside an array, a \<open>va_arg\<close> of the wrong type).
\<close>

datatype undefined_behaviour =
    Args_overrun
  | Scratch_overrun
  | Scratch_overread
  | Copy_past_buffered
  | Bad_method_index
  | Bad_va_arg

datatype error =
    Exit_failure
  | Assert_failed
  | Undefined undefined_behaviour

text \<open>
  \<open>struct wl_interface\<close> is declared in \<open>wayland-util.h\<close>, which is not under src/; the
  client reads \<open>methods[opcode].signature\<close> only.
\<close>

record wl_interface =
  interface_name :: string
  methods :: "string list"

text \<open>
  \<open>struct wl_proxy\<close>. The \<open>display\<close> back pointer is the session that the functions below
  take as an argument.
\<close>

record wl_proxy =
  proxy_interface :: wl_interface
  proxy_id :: uint32_t

text \<open>\<open>struct wl_global\<close>: \<open>global_interface\<close> holds the bytes before the terminating NUL.\<close>

record wl_global =
  global_id :: uint32_t
  global_interface :: "byte list"
  global_version :: uint32_t

text \<open>
  \<open>struct wl_visual\<close>: \<open>add_visual\<close> sets \<open>proxy.id\<close> and \<open>proxy.display\<close> and leaves
  \<open>proxy.interface\<close> as \<open>malloc\<close> returned it.
\<close>

record wl_visual =
  visual_proxy_id :: uint32_t

text \<open>
  Modelled from the spec: \<open>connection.c\<close> is not under src/. The transport buffers inbound
  bytes, copies without consuming, consumes by advancing a cursor, and takes whole
  buffers to write; its byte count is negative after a read error.
\<close>

record wl_connection =
  in_data :: "byte list"
  in_tail :: nat
  read_failed :: bool
  out_writes :: "byte list list"

definition wl_connection_data :: "wl_connection \<Rightarrow> uint32_t \<Rightarrow> int" where
  "wl_connection_data c poll_mask = (if read_failed c then - 1 else int (length (in_data c)))"

definition wl_connection_copy :: "wl_connection \<Rightarrow> nat \<Rightarrow> byte list option" where
  "wl_connection_copy c n = (if n \<le> length (in_data c) then Some (take n (in_data c)) else None)"

definition wl_connection_consume :: "wl_connection \<Rightarrow> nat \<Rightarrow> wl_connection" where
  "wl_connection_consume c n = c\<lparr>in_data := drop n (in_data c), in_tail := in_tail c + n\<rparr>"

definition wl_connection_write :: "wl_connection \<Rightarrow> byte list \<Rightarrow> nat \<Rightarrow> wl_connection" where
  "wl_connection_write c data count = c\<lparr>out_writes := out_writes c @ [take count data]\<rparr>"

text \<open>The socket delivers more bytes to the transport's buffer.\<close>

definition arrive :: "byte list \<Rightarrow> wl_connection \<Rightarrow> wl_connection" where
  "arrive bs c = c\<lparr>in_data := in_data c @ bs\<rparr>"

text \<open>
  \<open>struct wl_display\<close>, without the descriptor and the poll mask. The event handler is a
  function pointer of the application: it is modelled by its identity, and each call of
  it is recorded with its arguments (object, opcode, size and the words at \<open>p + 2\<close>).
\<close>

type_synonym event = "uint32_t \<times> uint32_t \<times> uint32_t \<times> byte list"

record wl_display =
  display_proxy :: wl_proxy
  connection :: wl_connection
  display_id :: uint32_t
  global_list :: "wl_global list"
  visual_list :: "wl_visual list"
  event_handler :: "nat option"
  handler_calls :: "(nat \<times> event) list"

section \<open>The lists of globals and visuals\<close>

text \<open>
  \<open>wl_list\<close> is a circular list with a head inside the display: the loop of
  \<open>wl_display_get_object_id\<close> stops when it is back at \<open>&display->global_list\<close>, and
  \<open>wl_list_insert(list.prev, elm)\<close> puts \<open>elm\<close> last. A \<open>struct wl_list *\<close> is the head
  or the link of the n-th element.
\<close>

datatype link = List_head | Node nat

definition list_next :: "'a list \<Rightarrow> link \<Rightarrow> link" where
  "list_next xs l = (case l of
      List_head \<Rightarrow> (if xs = [] then List_head else Node 0)
    | Node n \<Rightarrow> (if Suc n < length xs then Node (Suc n) else List_head))"

text \<open>
  \<open>container_of(l, struct wl_visual, link)\<close> subtracts the offset of \<open>link\<close>: from the link
  of an element it gives the element, from the head it gives an address inside the
  display that is no visual. It never gives \<open>NULL\<close>.
\<close>

datatype visual_ptr = Null | Visual wl_visual | Not_a_visual

definition container_of :: "wl_visual list \<Rightarrow> link \<Rightarrow> visual_ptr" where
  "container_of vs l = (case l of
      List_head \<Rightarrow> Not_a_visual
    | Node n \<Rightarrow> (if n < length vs then Visual (vs ! n) else Not_a_visual))"

text \<open>
  \<open>add_visual\<close> returns without a visual when its \<open>malloc\<close> gives \<open>NULL\<close>:
  \<open>malloc_ok\<close> is the outcome of that allocation.
\<close>

definition add_visual :: "bool \<Rightarrow> wl_display \<Rightarrow> wl_global \<Rightarrow> wl_display" where
  "add_visual malloc_ok d g =
     (if \<not> malloc_ok then d
      else d\<lparr>visual_list := visual_list d @ [\<lparr>visual_proxy_id = global_id g\<rparr>]\<rparr>)"

definition wl_display_get_argb_visual :: "wl_display \<Rightarrow> visual_ptr" where
  "wl_display_get_argb_visual d =
     container_of (visual_list d) (list_next (visual_list d) List_head)"

definition wl_display_get_premultiplied_argb_visual :: "wl_display \<Rightarrow> visual_ptr" where
  "wl_display_get_premultiplied_argb_visual d =
     container_of (visual_list d)
       (list_next (visual_list d) (list_next (visual_list d) List_head))"

definition wl_display_get_rgb_visual :: "wl_display \<Rightarrow> visual_ptr" where
  "wl_display_get_rgb_visual d =
     container_of (visual_list d)
       (list_next (visual_list d)
         (list_next (visual_list d) (list_next (visual_list d) List_head)))"

fun find_global :: "wl_global list \<Rightarrow> byte list \<Rightarrow> uint32_t" where
  "find_global [] interface = 0"
| "find_global (g # gs) interface =
     (if strcmp_eq0 (global_interface g) interface then global_id g
      else find_global gs interface)"

definition wl_display_get_object_id :: "wl_display \<Rightarrow> byte list \<Rightarrow> uint32_t" where
  "wl_display_get_object_id d interface = find_global (global_list d) interface"

section \<open>Events\<close>

text \<open>
  The outcomes of the allocations that one call of \<open>handle_global\<close> can make: of the
  global, of the copy of its interface name, and of the visual in \<open>add_visual\<close>.
\<close>

record mallocs =
  global_ok :: bool
  interface_ok :: bool
  visual_ok :: bool

text \<open>
  The end of \<open>handle_global\<close>: the global goes last into the list of globals, and for
  one named "visual" \<open>add_visual\<close> is called.
\<close>

definition record_global :: "bool \<Rightarrow> wl_display \<Rightarrow> wl_global \<Rightarrow> wl_display" where
  "record_global malloc_ok d g =
     (let d' = d\<lparr>global_list := global_list d @ [g]\<rparr>
      in if strcmp_eq0 (global_interface g) (cstr ''visual'') then add_visual malloc_ok d' g
         else d')"

text \<open>
  \<open>handle_global\<close> reads the array \<open>buf\<close> from byte offset \<open>p\<close> on (the caller passes
  \<open>p + 2\<close> words of its 32-word array). It returns with nothing recorded when the
  allocation of the global or of its name fails.
\<close>

definition handle_global ::
  "mallocs \<Rightarrow> wl_display \<Rightarrow> byte list \<Rightarrow> nat \<Rightarrow> uint32_t \<Rightarrow> error + wl_display" where
  "handle_global m d buf p sz =
     (if \<not> global_ok m then Inr d
      else if length buf < p + 8 then Inl (Undefined Scratch_overread)
      else
        let gid = read_word buf p;
            len = read_word buf (p + 4)
        in if \<not> interface_ok m then Inr d
           else if length buf < p + 8 + unat len then Inl (Undefined Scratch_overread)
           else
             let name = read_bytes buf (p + 8) (unat len);
                 v = p + 4 * (2 + DIV_ROUNDUP (unat len) 4)
             in if length buf < v + 4 then Inl (Undefined Scratch_overread)
                else Inr (record_global (visual_ok m) d
                       \<lparr>global_id = gid, global_interface = name,
                        global_version = read_word buf v\<rparr>))"

text \<open>
  \<open>handle_global\<close> on one array after the other, each as \<open>handle_event\<close> passes it and
  each with the outcomes of its allocations.
\<close>

fun handle_globals :: "wl_display \<Rightarrow> (mallocs \<times> byte list) list \<Rightarrow> error + wl_display" where
  "handle_globals d [] = Inr d"
| "handle_globals d ((m, buf) # bufs) =
     (case handle_global m d buf 8 (of_nat (length buf)) of
        Inl e \<Rightarrow> Inl e
      | Inr d' \<Rightarrow> handle_globals d' bufs)"

text \<open>
  The 32-word array holds, from its third word on, a global with this id and this name
  (and a version behind the name).
\<close>

definition holds_global :: "byte list \<Rightarrow> uint32_t \<Rightarrow> byte list \<Rightarrow> bool" where
  "holds_global buf gid name =
     (length buf = 128 \<and> read_word buf 8 = gid \<and> unat (read_word buf 12) = length name
      \<and> length name \<le> 108 \<and> read_bytes buf 16 (length name) = name)"

definition global_name :: "byte list \<Rightarrow> byte list" where
  "global_name buf = read_bytes buf 16 (unat (read_word buf 12))"

text \<open>
  \<open>handle_event\<close>: the message is copied into \<open>uint32_t p[32]\<close> whatever its size.
  \<open>GLOBAL\<close> stands for \<open>WL_DISPLAY_GLOBAL\<close> of \<open>wayland-protocol.h\<close>, which is not under src/.
\<close>

definition handle_event ::
  "uint32_t \<Rightarrow> (nat \<Rightarrow> byte) \<Rightarrow> mallocs \<Rightarrow> wl_display \<Rightarrow> uint32_t \<Rightarrow> uint32_t \<Rightarrow> uint32_t
     \<Rightarrow> error + wl_display" where
  "handle_event GLOBAL junk m d object opcode sz =
     (if 128 < unat sz then Inl (Undefined Scratch_overrun)
      else case wl_connection_copy (connection d) (unat sz) of
          None \<Rightarrow> Inl (Undefined Copy_past_buffered)
        | Some bs \<Rightarrow>
            (let p = write_bytes (uninitialised junk 128) 0 bs;
                 handled =
                   (if object = 1 \<and> opcode = GLOBAL then handle_global m d p 8 sz
                    else if event_handler d \<noteq> None
                    then Inr (d\<lparr>handler_calls :=
                                 handler_calls d @
                                   [(the (event_handler d), object, opcode, sz, drop 8 p)]\<rparr>)
                    else Inr d)
             in (case handled of
                   Inl e \<Rightarrow> Inl e
                 | Inr d' \<Rightarrow>
                     Inr (d'\<lparr>connection :=
                              wl_connection_consume (connection d') (unat sz)\<rparr>))))"

text \<open>The header words: \<open>object = p[0]\<close>, \<open>opcode = p[1] & 0xffff\<close>, \<open>size = p[1] >> 16\<close>.\<close>

definition header_object :: "byte list \<Rightarrow> uint32_t" where
  "header_object p = read_word p 0"

definition header_opcode :: "byte list \<Rightarrow> uint32_t" where
  "header_opcode p = read_word p 4 AND 0xffff"

definition header_size :: "byte list \<Rightarrow> uint32_t" where
  "header_size p = drop_bit 16 (read_word p 4)"

text \<open>
  The loop of \<open>wl_display_iterate\<close>. It need not end (a header that declares size 0 is
  handled again and again), so not returning is the value \<open>None\<close>. Each call of
  \<open>handle_event\<close> finds its own stack contents, \<open>junk 0\<close>, \<open>junk 1\<close>, ..., and its
  own outcomes of \<open>malloc\<close>, \<open>ms 0\<close>, \<open>ms 1\<close>, ...
\<close>

partial_function (option) wl_display_iterate_loop ::
  "uint32_t \<Rightarrow> (nat \<Rightarrow> nat \<Rightarrow> byte) \<Rightarrow> (nat \<Rightarrow> mallocs) \<Rightarrow> wl_display \<Rightarrow> int
     \<Rightarrow> (error + wl_display \<times> int) option" where
  "wl_display_iterate_loop GLOBAL junk ms d len =
     (if 0 < len then
        (if len < 8 then Some (Inr (d, len))
         else case wl_connection_copy (connection d) 8 of
             None \<Rightarrow> Some (Inl (Undefined Copy_past_buffered))
           | Some p \<Rightarrow>
               (if len < uint (header_size p) then Some (Inr (d, len))
                else
                  (case handle_event GLOBAL (junk 0) (ms 0) d (header_object p)
                          (header_opcode p) (header_size p) of
                     Inl e \<Rightarrow> Some (Inl e)
                   | Inr d' \<Rightarrow>
                       wl_display_iterate_loop GLOBAL (\<lambda>n. junk (Suc n)) (\<lambda>n. ms (Suc n)) d'
                         (len - uint (header_size p)))))
      else Some (Inr (d, len)))"

declare wl_display_iterate_loop.simps [code]

definition wl_display_iterate ::
  "uint32_t \<Rightarrow> (nat \<Rightarrow> nat \<Rightarrow> byte) \<Rightarrow> (nat \<Rightarrow> mallocs) \<Rightarrow> wl_display \<Rightarrow> uint32_t
     \<Rightarrow> (error + wl_display) option" where
  "wl_display_iterate GLOBAL junk ms d poll_mask =
     (case wl_display_iterate_loop GLOBAL junk ms d
             (wl_connection_data (connection d) poll_mask) of
        None \<Rightarrow> None
      | Some (Inl e) \<Rightarrow> Some (Inl e)
      | Some (Inr (d', len)) \<Rightarrow> if len < 0 then Some (Inl Exit_failure) else Some (Inr d'))"

section \<open>Session\<close>

text \<open>
  \<open>wl_display_create\<close>. The three early returns of \<open>NULL\<close> are the outcomes of \<open>malloc\<close>,
  \<open>socket\<close> and \<open>connect\<close>; \<open>seed\<close> is what \<open>display->id\<close> holds after the \<open>read\<close> of the
  handshake, \<open>conn\<close> is the transport that \<open>wl_connection_create\<close> returns, and \<open>ms\<close>
  are the outcomes of the allocations of the first dispatch pass.
\<close>

definition wl_display_create ::
  "uint32_t \<Rightarrow> (nat \<Rightarrow> nat \<Rightarrow> byte) \<Rightarrow> (nat \<Rightarrow> mallocs) \<Rightarrow> wl_interface \<Rightarrow> uint32_t
     \<Rightarrow> bool \<Rightarrow> bool \<Rightarrow> bool \<Rightarrow> uint32_t \<Rightarrow> wl_connection
     \<Rightarrow> (error + wl_display option) option" where
  "wl_display_create GLOBAL junk ms wl_display_interface READABLE malloc_ok socket_ok
       connect_ok seed conn =
     (if \<not> malloc_ok then Some (Inr None)
      else if \<not> socket_ok then Some (Inr None)
      else if \<not> connect_ok then Some (Inr None)
      else
        let d0 = \<lparr>display_proxy = \<lparr>proxy_interface = wl_display_interface, proxy_id = 0\<rparr>,
                  connection = conn, display_id = seed, global_list = [], visual_list = [],
                  event_handler = None, handler_calls = []\<rparr>;
            d1 = d0\<lparr>display_proxy :=
                      \<lparr>proxy_interface = wl_display_interface,
                       proxy_id = wl_display_get_object_id d0 (cstr ''display'')\<rparr>\<rparr>
        in case wl_display_iterate GLOBAL junk ms d1 READABLE of
             None \<Rightarrow> None
           | Some (Inl e) \<Rightarrow> Some (Inl e)
           | Some (Inr d) \<Rightarrow> Some (Inr (Some d)))"

definition wl_display_set_event_handler :: "wl_display \<Rightarrow> nat option \<Rightarrow> wl_display" where
  "wl_display_set_event_handler d handler = d\<lparr>event_handler := handler\<rparr>"

text \<open>\<open>return display->id++;\<close> on a \<open>uint32_t\<close>.\<close>

definition wl_display_allocate_id :: "wl_display \<Rightarrow> uint32_t \<times> wl_display" where
  "wl_display_allocate_id d = (display_id d, d\<lparr>display_id := display_id d + 1\<rparr>)"

section \<open>Marshalling\<close>

text \<open>The entries of the \<open>va_list\<close>: a 32-bit value, a \<open>const char *\<close>, a \<open>struct wl_proxy *\<close>.\<close>

datatype arg = Arg_uint uint32_t | Arg_string "byte list" | Arg_proxy wl_proxy

text \<open>\<open>*p++ = v\<close> into \<open>uint32_t args[32]\<close>, with \<open>p\<close> as a byte offset.\<close>

definition put_word :: "byte list \<Rightarrow> nat \<Rightarrow> uint32_t \<Rightarrow> error + byte list" where
  "put_word args p v =
     (if p + 4 \<le> length args then Inr (write_bytes args p (store_word v))
      else Inl (Undefined Args_overrun))"

text \<open>One turn of the \<open>switch\<close> in \<open>wl_proxy_vmarshal\<close>.\<close>

definition marshal_arg ::
  "char \<Rightarrow> arg list \<Rightarrow> byte list \<Rightarrow> nat \<Rightarrow> error + arg list \<times> byte list \<times> nat" where
  "marshal_arg c ap args p =
     (if c = CHR ''u'' \<or> c = CHR ''i'' then
        (case ap of
           Arg_uint v # ap' \<Rightarrow>
             (case put_word args p v of Inl e \<Rightarrow> Inl e | Inr a \<Rightarrow> Inr (ap', a, p + 4))
         | _ \<Rightarrow> Inl (Undefined Bad_va_arg))
      else if c = CHR ''s'' then
        (case ap of
           Arg_string s # ap' \<Rightarrow>
             let len = (of_nat (strlen s) :: uint32_t) in
             (case put_word args p len of
                Inl e \<Rightarrow> Inl e
              | Inr a \<Rightarrow>
                  if p + 4 + unat len \<le> length a
                  then Inr (ap', write_bytes a (p + 4) (take (unat len) s),
                            p + 4 + 4 * DIV_ROUNDUP (unat len) 4)
                  else Inl (Undefined Args_overrun))
         | _ \<Rightarrow> Inl (Undefined Bad_va_arg))
      else if c = CHR ''n'' \<or> c = CHR ''o'' then
        (case ap of
           Arg_proxy proxy # ap' \<Rightarrow>
             (case put_word args p (proxy_id proxy) of
                Inl e \<Rightarrow> Inl e
              | Inr a \<Rightarrow> Inr (ap', a, p + 4))
         | _ \<Rightarrow> Inl (Undefined Bad_va_arg))
      else Inl Assert_failed)"

fun marshal_loop ::
  "string \<Rightarrow> arg list \<Rightarrow> byte list \<Rightarrow> nat \<Rightarrow> error + arg list \<times> byte list \<times> nat" where
  "marshal_loop [] ap args p = Inr (ap, args, p)"
| "marshal_loop (c # cs) ap args p =
     (case marshal_arg c ap args p of
        Inl e \<Rightarrow> Inl e
      | Inr (ap', args', p') \<Rightarrow> marshal_loop cs ap' args' p')"

definition wl_proxy_vmarshal ::
  "(nat \<Rightarrow> byte) \<Rightarrow> wl_display \<Rightarrow> wl_proxy \<Rightarrow> uint32_t \<Rightarrow> arg list \<Rightarrow> error + wl_display" where
  "wl_proxy_vmarshal junk d target opcode ap =
     (if length (methods (proxy_interface target)) \<le> unat opcode
      then Inl (Undefined Bad_method_index)
      else
        let signature = methods (proxy_interface target) ! unat opcode;
            count = strlen_sig signature
        in case marshal_loop (take count signature) ap (uninitialised junk 128) 8 of
             Inl e \<Rightarrow> Inl e
           | Inr (ap', args, p) \<Rightarrow>
               let sz = (of_nat p :: uint32_t);
                   args1 = write_bytes args 0 (store_word (proxy_id target));
                   args2 = write_bytes args1 4 (store_word (opcode OR push_bit 16 sz))
               in Inr (d\<lparr>connection := wl_connection_write (connection d) args2 (unat sz)\<rparr>))"

definition wl_proxy_marshal ::
  "(nat \<Rightarrow> byte) \<Rightarrow> wl_display \<Rightarrow> wl_proxy \<Rightarrow> uint32_t \<Rightarrow> arg list \<Rightarrow> error + wl_display" where
  "wl_proxy_marshal junk d proxy opcode ap = wl_proxy_vmarshal junk d proxy opcode ap"

text \<open>
  The two calls that create and destroy a surface. \<open>wl_surface_interface\<close> and the
  opcodes come from \<open>wayland-protocol.h\<close>, which is not under src/.
\<close>

definition wl_compositor_create_surface ::
  "wl_interface \<Rightarrow> uint32_t \<Rightarrow> (nat \<Rightarrow> byte) \<Rightarrow> bool \<Rightarrow> wl_display \<Rightarrow> wl_proxy
     \<Rightarrow> error + wl_proxy option \<times> wl_display" where
  "wl_compositor_create_surface wl_surface_interface CREATE_SURFACE junk malloc_ok d compositor =
     (if \<not> malloc_ok then Inr (None, d)
      else
        let (new_id, d') = wl_display_allocate_id d;
            surface = \<lparr>proxy_interface = wl_surface_interface, proxy_id = new_id\<rparr>
        in case wl_proxy_marshal junk d' compositor CREATE_SURFACE [Arg_proxy surface] of
             Inl e \<Rightarrow> Inl e
           | Inr d'' \<Rightarrow> Inr (Some surface, d''))"

definition wl_surface_destroy ::
  "uint32_t \<Rightarrow> (nat \<Rightarrow> byte) \<Rightarrow> wl_display \<Rightarrow> wl_proxy \<Rightarrow> error + wl_display" where
  "wl_surface_destroy DESTROY junk d surface = wl_proxy_marshal junk d surface DESTROY []"

section \<open>Decoding\<close>

text \<open>
  The decoding of one field, as \<open>handle_global\<close> does it for the id, the name and the
  version of a global: a word is read in place; a string is its length word, that many
  bytes, and the next field starts \<open>DIV_ROUNDUP(length, 4)\<close> words further. Reads are
  checked against the end of the message.
\<close>

datatype wire_value = Uint uint32_t | String "byte list" | Object_id uint32_t

definition demarshal_arg :: "char \<Rightarrow> byte list \<Rightarrow> nat \<Rightarrow> (wire_value \<times> nat) option" where
  "demarshal_arg c msg p =
     (if length msg < p + 4 then None
      else if c = CHR ''u'' \<or> c = CHR ''i'' then Some (Uint (read_word msg p), p + 4)
      else if c = CHR ''n'' \<or> c = CHR ''o'' then Some (Object_id (read_word msg p), p + 4)
      else if c = CHR ''s'' then
        (let len = read_word msg p
         in if length msg < p + 4 + unat len then None
            else Some (String (read_bytes msg (p + 4) (unat len)),
                       p + 4 + 4 * DIV_ROUNDUP (unat len) 4))
      else None)"

fun demarshal :: "string \<Rightarrow> byte list \<Rightarrow> nat \<Rightarrow> (wire_value list \<times> nat) option" where
  "demarshal [] msg p = Some ([], p)"
| "demarshal (c # cs) msg p =
     (case demarshal_arg c msg p of
        None \<Rightarrow> None
      | Some (v, p') \<Rightarrow>
          (case demarshal cs msg p' of None \<Rightarrow> None | Some (vs, q) \<Rightarrow> Some (v # vs, q)))"

fun arg_value :: "arg \<Rightarrow> wire_value" where
  "arg_value (Arg_uint v) = Uint v"
| "arg_value (Arg_string s) = String s"
| "arg_value (Arg_proxy proxy) = Object_id (proxy_id proxy)"

fun arg_matches :: "char \<Rightarrow> arg \<Rightarrow> bool" where
  "arg_matches c (Arg_uint v) = (c = CHR ''u'' \<or> c = CHR ''i'')"
| "arg_matches c (Arg_string s) = (c = CHR ''s'')"
| "arg_matches c (Arg_proxy proxy) = (c = CHR ''n'' \<or> c = CHR ''o'')"

fun arg_size :: "arg \<Rightarrow> nat" where
  "arg_size (Arg_uint v) = 4"
| "arg_size (Arg_string s) = 4 + 4 * DIV_ROUNDUP (strlen s) 4"
| "arg_size (Arg_proxy proxy) = 4"

definition args_size :: "arg list \<Rightarrow> nat" where
  "args_size ap = sum_list (map arg_size ap)"

fun c_string_arg :: "arg \<Rightarrow> bool" where
  "c_string_arg (Arg_string s) = (0 \<notin> set s)"
| "c_string_arg _ = True"

text \<open>
  The bytes of one field in the array, and of a row of fields from offset \<open>p\<close> on: a
  word; or the length word of a string, its bytes, and up to the next word boundary the
  bytes that the array \<open>buf\<close> held there before.
\<close>

fun field_layout :: "byte list \<Rightarrow> nat \<Rightarrow> arg \<Rightarrow> byte list" where
  "field_layout buf p (Arg_uint v) = store_word v"
| "field_layout buf p (Arg_string s) =
     store_word (of_nat (strlen s)) @ take (strlen s) s
       @ read_bytes buf (p + 4 + strlen s) (4 * DIV_ROUNDUP (strlen s) 4 - strlen s)"
| "field_layout buf p (Arg_proxy proxy) = store_word (proxy_id proxy)"

fun fields_layout :: "byte list \<Rightarrow> nat \<Rightarrow> arg list \<Rightarrow> byte list" where
  "fields_layout buf p [] = []"
| "fields_layout buf p (a # ap) = field_layout buf p a @ fields_layout buf (p + arg_size a) ap"

text \<open>The bytes of a whole message: the two header words and the fields.\<close>

definition wire_message :: "(nat \<Rightarrow> byte) \<Rightarrow> wl_proxy \<Rightarrow> uint32_t \<Rightarrow> arg list \<Rightarrow> byte list" where
  "wire_message junk target opcode ap =
     store_word (proxy_id target)
       @ store_word (opcode OR push_bit 16 (of_nat (8 + args_size ap)))
       @ fields_layout (uninitialised junk 128) 8 ap"

section \<open>Identifiers\<close>

text \<open>The results of \<open>n\<close> consecutive calls of \<open>wl_display_allocate_id\<close>.\<close>

fun allocate_ids :: "nat \<Rightarrow> wl_display \<Rightarrow> uint32_t list \<times> wl_display" where
  "allocate_ids 0 d = ([], d)"
| "allocate_ids (Suc n) d =
     (let (i, d') = wl_display_allocate_id d;
          (is, d'') = allocate_ids n d'
      in (i # is, d''))"

text \<open>
  What an application does between allocations: it allocates an id, or it destroys a
  surface it holds (\<open>wl_surface_destroy\<close>). \<open>run_client\<close> returns the ids allocated.
\<close>

datatype client_op = Allocate_id | Destroy_surface wl_proxy

fun run_client ::
  "uint32_t \<Rightarrow> (nat \<Rightarrow> byte) \<Rightarrow> client_op list \<Rightarrow> wl_display \<Rightarrow> error + uint32_t list \<times> wl_display" where
  "run_client DESTROY junk [] d = Inr ([], d)"
| "run_client DESTROY junk (Allocate_id # ops) d =
     (let (i, d') = wl_display_allocate_id d
      in case run_client DESTROY junk ops d' of
           Inl e \<Rightarrow> Inl e
         | Inr (ids, d'') \<Rightarrow> Inr (i # ids, d''))"
| "run_client DESTROY junk (Destroy_surface surface # ops) d =
     (case wl_surface_destroy DESTROY junk d surface of
        Inl e \<Rightarrow> Inl e
      | Inr d' \<Rightarrow> run_client DESTROY junk ops d')"

fun is_allocate :: "client_op \<Rightarrow> bool" where
  "is_allocate Allocate_id = True"
| "is_allocate (Destroy_surface surface) = False"

section \<open>Concrete sessions\<close>

definition all_ok :: mallocs where
  "all_ok = \<lparr>global_ok = True, interface_ok = True, visual_ok = True\<rparr>"

definition empty_connection :: wl_connection where
  "empty_connection = \<lparr>in_data = [], in_tail = 0, read_failed = False, out_writes = []\<rparr>"

definition example_interface :: wl_interface where
  "example_interface = \<lparr>interface_name = ''surface'', methods = [[], ''uiiuo'', ''s'', ''usu'']\<rparr>"

definition example_proxy :: "uint32_t \<Rightarrow> wl_proxy" where
  "example_proxy n = \<lparr>proxy_interface = example_interface, proxy_id = n\<rparr>"

definition fresh_display :: "uint32_t \<Rightarrow> wl_display" where
  "fresh_display seed =
     \<lparr>display_proxy = \<lparr>proxy_interface = example_interface, proxy_id = 0\<rparr>,
      connection = empty_connection, display_id = seed, global_list = [], visual_list = [],
      event_handler = None, handler_calls = []\<rparr>"

text \<open>
  A message as it arrives: the two header words, then the payload. A global's payload
  is its id, the length of its name, the name padded with zeros to a word boundary, and
  its version.
\<close>

definition message :: "uint32_t \<Rightarrow> uint32_t \<Rightarrow> byte list \<Rightarrow> byte list" where
  "message object opcode payload =
     store_word object @ store_word (opcode OR push_bit 16 (of_nat (8 + length payload)))
       @ payload"

definition global_payload :: "uint32_t \<Rightarrow> byte list \<Rightarrow> uint32_t \<Rightarrow> byte list" where
  "global_payload gid name version =
     store_word gid @ store_word (of_nat (length name)) @ name
       @ replicate (4 * DIV_ROUNDUP (length name) 4 - length name) 0 @ store_word version"

text \<open>The 32-word array of \<open>handle_event\<close> after the copy of a message into zeroed memory.\<close>

definition scratch_of :: "byte list \<Rightarrow> byte list" where
  "scratch_of msg = write_bytes (uninitialised (\<lambda>i. 0) 128) 0 msg"

text \<open>
  The arrays of four events that advertise globals named "visual", "other", "visual"
  and "visual" with the ids 21 to 24; \<open>m\<close> are the outcomes of the allocations for the
  first of them. With \<open>visual_fails\<close> the allocation in \<open>add_visual\<close> fails.
\<close>

definition four_globals :: "mallocs \<Rightarrow> (mallocs \<times> byte list) list" where
  "four_globals m =
     [(m, scratch_of (message 1 3 (global_payload 21 (cstr ''visual'') 1))),
      (all_ok, scratch_of (message 1 3 (global_payload 22 (cstr ''other'') 1))),
      (all_ok, scratch_of (message 1 3 (global_payload 23 (cstr ''visual'') 1))),
      (all_ok, scratch_of (message 1 3 (global_payload 24 (cstr ''visual'') 1)))]"

definition visual_fails :: mallocs where
  "visual_fails = \<lparr>global_ok = True, interface_ok = True, visual_ok = False\<rparr>"

text \<open>A session with a registered event handler and these bytes buffered by its transport.\<close>

definition receiving :: "byte list \<Rightarrow> wl_display" where
  "receiving bs =
     (fresh_display 100)\<lparr>connection := arrive bs empty_connection, event_handler := Some 1\<rparr>"

text \<open>
  An event of 16 bytes for the object 2, and an event for the same object whose header
  declares \<open>n\<close> bytes, with \<open>n - 8\<close> bytes of payload.
\<close>

definition small_event :: "byte list" where
  "small_event = message 2 0 [1, 2, 3, 4, 5, 6, 7, 8]"

definition event_of_size :: "nat \<Rightarrow> byte list" where
  "event_of_size n = message 2 0 (replicate (n - 8) 7)"

text \<open>What a server sends that advertises its display object under the id 1.\<close>

definition display_global_stream :: "byte list" where
  "display_global_stream = message 1 3 (global_payload 1 (cstr ''display'') 1)"

section \<open>Identifier allocation\<close>

lemma allocate_ids_fst:
  "fst (allocate_ids n d) = map (\<lambda>k. display_id d + of_nat k) [0..<n]"
proof (induction n arbitrary: d)
  case 0
  then show ?case by simp
next
  case (Suc n)
  have "fst (allocate_ids (Suc n) d) =
          display_id d # fst (allocate_ids n (d\<lparr>display_id := display_id d + 1\<rparr>))"
    by (simp add: wl_display_allocate_id_def split: prod.splits)
  also have "\<dots> = display_id d # map (\<lambda>k. display_id d + 1 + of_nat k) [0..<n]"
    by (simp add: Suc.IH)
  also have "\<dots> = map (\<lambda>k. display_id d + of_nat k) [0..<Suc n]"
    by (simp only: map_upt_Suc) (simp add: add.assoc)
  finally show ?case .
qed

lemma allocate_ids_snd:
  "snd (allocate_ids n d) = d\<lparr>display_id := display_id d + of_nat n\<rparr>"
proof (induction n arbitrary: d)
  case 0
  then show ?case by simp
next
  case (Suc n)
  have "snd (allocate_ids (Suc n) d) = snd (allocate_ids n (d\<lparr>display_id := display_id d + 1\<rparr>))"
    by (simp add: wl_display_allocate_id_def split: prod.splits)
  then show ?case by (simp add: Suc.IH add.assoc)
qed

lemma word32_offsets_distinct:
  fixes v :: uint32_t
  assumes "n \<le> 2 ^ 32"
  shows "distinct (map (\<lambda>k. v + of_nat k) [0..<n])"
proof -
  have "inj_on (\<lambda>k. v + (of_nat k :: uint32_t)) {0..<n}"
  proof (rule inj_onI)
    fix x y assume x: "x \<in> {0..<n}" and y: "y \<in> {0..<n}"
      and eq: "v + (of_nat x :: uint32_t) = v + of_nat y"
    from eq have "(of_nat x :: uint32_t) = of_nat y" by simp
    then have "unat (of_nat x :: uint32_t) = unat (of_nat y :: uint32_t)" by simp
    moreover have "x < 2 ^ 32" "y < 2 ^ 32" using x y assms by auto
    ultimately show "x = y" by (simp add: unat_of_nat)
  qed
  then show ?thesis by (simp add: distinct_map)
qed

lemma word32_offsets_unat:
  fixes v :: uint32_t
  assumes "unat v + n \<le> 2 ^ 32"
  shows "map unat (map (\<lambda>k. v + of_nat k) [0..<n]) = map (\<lambda>k. unat v + k) [0..<n]"
proof -
  have "unat (v + of_nat k) = unat v + k" if "k < n" for k
  proof -
    have "unat (v + of_nat k) = (unat v + k) mod 2 ^ 32"
      by (simp add: unat_word_ariths unat_of_nat mod_simps)
    moreover have "unat v + k < 2 ^ 32" using that assms by simp
    ultimately show ?thesis by simp
  qed
  then show ?thesis by simp
qed

lemma vmarshal_display_id:
  "wl_proxy_vmarshal junk d target opcode ap = Inr d' \<Longrightarrow>
     display_id d' = display_id d"
  by (auto simp: wl_proxy_vmarshal_def Let_def split: if_splits sum.splits prod.splits)

lemma surface_destroy_display_id:
  "wl_surface_destroy DESTROY junk d surface = Inr d' \<Longrightarrow> display_id d' = display_id d"
  by (simp add: wl_surface_destroy_def wl_proxy_marshal_def vmarshal_display_id)

lemma run_client_ids:
  "run_client DESTROY junk ops d = Inr (ids, d') \<Longrightarrow>
     ids = map (\<lambda>k. display_id d + of_nat k) [0..<length (filter is_allocate ops)]"
proof (induction ops arbitrary: d ids)
  case Nil
  then show ?case by simp
next
  case (Cons x ops)
  show ?case
  proof (cases x)
    case Allocate_id
    with Cons.prems obtain ids0 where
      run: "run_client DESTROY junk ops (d\<lparr>display_id := display_id d + 1\<rparr>) = Inr (ids0, d')"
      and ids: "ids = display_id d # ids0"
      by (auto simp: wl_display_allocate_id_def split: sum.splits)
    from Cons.IH [OF run]
    have "ids0 = map (\<lambda>k. display_id d + 1 + of_nat k) [0..<length (filter is_allocate ops)]"
      by simp
    then have "ids = map (\<lambda>k. display_id d + of_nat k) [0..<Suc (length (filter is_allocate ops))]"
      unfolding ids by (simp only: map_upt_Suc) (simp add: add.assoc)
    then show ?thesis using Allocate_id by simp
  next
    case (Destroy_surface surface)
    with Cons.prems obtain d1 where
      destroy: "wl_surface_destroy DESTROY junk d surface = Inr d1"
      and run: "run_client DESTROY junk ops d1 = Inr (ids, d')"
      by (auto split: sum.splits)
    from Cons.IH [OF run] surface_destroy_display_id [OF destroy] Destroy_surface
    show ?thesis by simp
  qed
qed

text \<open>
  C4 (amended). The ids returned by the allocations of any run of a client, whatever
  surfaces it destroys in between, are the seed \<open>v\<close>, \<open>v + 1\<close>, ... counted modulo
  \<open>2 ^ 32\<close>; while \<open>v + N\<close> does not pass \<open>2 ^ 32\<close> they are the numbers
  \<open>v, v + 1, ..., v + N - 1\<close> themselves and no value is repeated.
\<close>

theorem allocate_ids_sequence:
  assumes "run_client DESTROY junk ops d = Inr (ids, d')"
  shows "ids = map (\<lambda>k. display_id d + of_nat k) [0..<length (filter is_allocate ops)]
    \<and> (unat (display_id d) + length (filter is_allocate ops) \<le> 2 ^ 32 \<longrightarrow>
         map unat ids =
           map (\<lambda>k. unat (display_id d) + k) [0..<length (filter is_allocate ops)]
         \<and> distinct ids)"
proof -
  let ?n = "length (filter is_allocate ops)"
  have ids: "ids = map (\<lambda>k. display_id d + of_nat k) [0..<?n]"
    using assms by (rule run_client_ids)
  moreover have "map unat ids = map (\<lambda>k. unat (display_id d) + k) [0..<?n]"
    if "unat (display_id d) + ?n \<le> 2 ^ 32"
    unfolding ids using that by (rule word32_offsets_unat)
  moreover have "distinct ids" if "unat (display_id d) + ?n \<le> 2 ^ 32"
  proof -
    from that have "?n \<le> 2 ^ 32" by simp
    then show ?thesis unfolding ids by (rule word32_offsets_distinct)
  qed
  ultimately show ?thesis by blast
qed

text \<open>A run with three allocations and a destroyed surface, from seed 7.\<close>

theorem allocate_ids_sequence_witness:
  "\<exists>d'. run_client 0 (\<lambda>i. 0)
           [Allocate_id, Destroy_surface \<lparr>proxy_interface = example_interface, proxy_id = 7\<rparr>,
            Allocate_id, Allocate_id] (fresh_display 7) = Inr ([7, 8, 9], d')
     \<and> unat (display_id (fresh_display 7)) + 3 \<le> (2::nat) ^ 32
     \<and> map unat [7, 8, 9 :: uint32_t] = [7, 8, 9] \<and> distinct [7, 8, 9 :: uint32_t]"
proof -
  let ?ops = "[Allocate_id, Destroy_surface \<lparr>proxy_interface = example_interface, proxy_id = 7\<rparr>,
            Allocate_id, Allocate_id]"
  let ?r = "run_client 0 (\<lambda>i. 0) ?ops (fresh_display 7)"
  have ok: "\<not> isl ?r" by code_simp
  have fst: "fst (projr ?r) = [7, 8, 9]" by code_simp
  from ok have run: "?r = Inr (fst (projr ?r), snd (projr ?r))"
    by (cases ?r) auto
  have seed: "unat (display_id (fresh_display 7)) + 3 \<le> (2::nat) ^ 32"
    by (simp add: fresh_display_def)
  from allocate_ids_sequence [OF run] seed fst run show ?thesis
    by auto
qed

text \<open>
  C4 as stated fails at the seed \<open>2 ^ 32 - 1\<close>: the second id is 0, not \<open>2 ^ 32\<close>, and
  the counter has gone down.
\<close>

theorem allocate_id_counterexample:
  "map unat (fst (allocate_ids 2 (fresh_display 0xFFFFFFFF))) = [4294967295, 0]
   \<and> map unat (fst (allocate_ids 2 (fresh_display 0xFFFFFFFF))) \<noteq> [4294967295, 4294967296]
   \<and> unat (display_id (snd (allocate_ids 1 (fresh_display 0xFFFFFFFF))))
        < unat (display_id (fresh_display 0xFFFFFFFF))"
proof -
  have ids: "fst (allocate_ids 2 (fresh_display 0xFFFFFFFF)) = [0xFFFFFFFF, 0]"
    by code_simp
  have ctr: "display_id (snd (allocate_ids 1 (fresh_display 0xFFFFFFFF))) = 0"
    by code_simp
  have seed: "display_id (fresh_display 0xFFFFFFFF) = 0xFFFFFFFF"
    by (simp add: fresh_display_def)
  show ?thesis
    unfolding ids ctr seed by simp
qed

text \<open>
  C10. The counter is a 32-bit word: \<open>wl_display_allocate_id\<close> returns the counter and
  adds 1 modulo \<open>2 ^ 32\<close>; after \<open>2 ^ 32\<close> allocations the counter is back at its seed
  and the ids issued before are issued again; up to \<open>2 ^ 32\<close> allocations give distinct
  ids, one more does not.
\<close>

theorem allocate_id_wraps:
  "fst (wl_display_allocate_id d) = display_id d
   \<and> unat (display_id (snd (wl_display_allocate_id d))) = (unat (display_id d) + 1) mod 2 ^ 32
   \<and> display_id (snd (allocate_ids (2 ^ 32) d)) = display_id d
   \<and> fst (allocate_ids (2 ^ 32 + Suc k) d) ! (2 ^ 32 + k) = fst (allocate_ids (Suc k) d) ! k
   \<and> (n \<le> 2 ^ 32 \<longrightarrow> distinct (fst (allocate_ids n d)))
   \<and> \<not> distinct (fst (allocate_ids (2 ^ 32 + 1) d))"
proof -
  have a: "fst (wl_display_allocate_id d) = display_id d"
    by (simp add: wl_display_allocate_id_def)
  have b: "unat (display_id (snd (wl_display_allocate_id d))) = (unat (display_id d) + 1) mod 2 ^ 32"
    by (simp add: wl_display_allocate_id_def unat_word_ariths)
  have c: "display_id (snd (allocate_ids (2 ^ 32) d)) = display_id d"
    by (simp add: allocate_ids_snd)
  have d: "fst (allocate_ids (2 ^ 32 + Suc k) d) ! (2 ^ 32 + k) = fst (allocate_ids (Suc k) d) ! k"
    by (simp only: allocate_ids_fst) (simp del: upt_Suc)
  have e: "distinct (fst (allocate_ids n d))" if "n \<le> 2 ^ 32"
    unfolding allocate_ids_fst using that by (rule word32_offsets_distinct)
  have f: "\<not> distinct (fst (allocate_ids (2 ^ 32 + 1) d))"
  proof
    assume dis: "distinct (fst (allocate_ids (2 ^ 32 + 1) d))"
    have len: "length (fst (allocate_ids (2 ^ 32 + 1) d)) = 2 ^ 32 + 1"
      by (simp add: allocate_ids_fst)
    have "fst (allocate_ids (2 ^ 32 + 1) d) ! 0 = fst (allocate_ids (2 ^ 32 + 1) d) ! (2 ^ 32)"
      by (simp only: allocate_ids_fst) (simp del: upt_Suc)
    with dis len show False
      by (simp add: distinct_conv_nth)
  qed
  from a b c d e f show ?thesis by blast
qed


text \<open>The same at the seed \<open>2 ^ 32 - 1\<close>, for three allocations.\<close>

theorem allocate_id_wraps_witness:
  "fst (wl_display_allocate_id (fresh_display 0xFFFFFFFF)) = 0xFFFFFFFF
   \<and> unat (display_id (snd (wl_display_allocate_id (fresh_display 0xFFFFFFFF)))) = 0
   \<and> (3::nat) \<le> 2 ^ 32
   \<and> distinct (fst (allocate_ids 3 (fresh_display 0xFFFFFFFF)))"
proof -
  note w = allocate_id_wraps [of "fresh_display 0xFFFFFFFF" 0 3]
  have le: "(3::nat) \<le> 2 ^ 32" by simp
  from w have "fst (wl_display_allocate_id (fresh_display 0xFFFFFFFF)) =
      display_id (fresh_display 0xFFFFFFFF)"
    by blast
  moreover from w have "unat (display_id (snd (wl_display_allocate_id (fresh_display 0xFFFFFFFF))))
      = (unat (display_id (fresh_display 0xFFFFFFFF)) + 1) mod 2 ^ 32"
    by blast
  moreover from w le have "distinct (fst (allocate_ids 3 (fresh_display 0xFFFFFFFF)))"
    by blast
  ultimately show ?thesis using le
    by (simp add: fresh_display_def)
qed

section \<open>The registry\<close>

lemma handle_global_holds:
  assumes "holds_global buf gid name" and "global_ok m" and "interface_ok m"
  shows "handle_global m d buf 8 sz =
    Inr (record_global (visual_ok m) d \<lparr>global_id = gid, global_interface = name,
       global_version = read_word buf (16 + 4 * DIV_ROUNDUP (length name) 4)\<rparr>)"
proof -
  from assms(1) have len: "length buf = 128" and gid: "read_word buf 8 = gid"
    and n: "unat (read_word buf 12) = length name" and le: "length name \<le> 108"
    and nm: "read_bytes buf 16 (length name) = name"
    by (simp_all add: holds_global_def)
  from le have "DIV_ROUNDUP (length name) 4 \<le> 27"
    by (simp add: DIV_ROUNDUP_def)
  with len gid n le nm assms(2,3) show ?thesis
    by (simp add: handle_global_def Let_def)
qed

lemma find_global_miss:
  "\<forall>g\<in>set gs. \<not> strcmp_eq0 (global_interface g) interface \<Longrightarrow> find_global gs interface = 0"
  by (induction gs) auto

lemma record_global_lists:
  "global_list (record_global ok d g) = global_list d @ [g]"
  "visual_list (record_global ok d g) =
     (if strcmp_eq0 (global_interface g) (cstr ''visual'') \<and> ok
      then visual_list d @ [\<lparr>visual_proxy_id = global_id g\<rparr>] else visual_list d)"
  by (simp_all add: record_global_def add_visual_def Let_def)

lemma strcmp_visual_other: "\<not> strcmp_eq0 (cstr ''other'') (cstr ''visual'')"
  by (simp add: strcmp_eq0_def cstr_def)

lemma strcmp_refl: "strcmp_eq0 a a"
  by (simp add: strcmp_eq0_def)

text \<open>
  C6 (amended). When globals named "visual", "other", "visual", "visual" are recorded in
  this order in a session that had none, and the allocation of the visual succeeds for
  each of the three, the accessors of the ARGB, the premultiplied ARGB and the RGB visual
  give the visuals with the ids of the 1st, 3rd and 4th global; the lookup of "other"
  returns the id of the 2nd global and the lookup of "visual" the id of the 1st, the
  first of its three matches.
\<close>

theorem visual_insertion_order:
  assumes "global_list d = []" and "visual_list d = []"
    and "holds_global p1 g1 (cstr ''visual'')" and "holds_global p2 g2 (cstr ''other'')"
    and "holds_global p3 g3 (cstr ''visual'')" and "holds_global p4 g4 (cstr ''visual'')"
    and "global_ok m1 \<and> interface_ok m1" and "global_ok m2 \<and> interface_ok m2"
    and "global_ok m3 \<and> interface_ok m3" and "global_ok m4 \<and> interface_ok m4"
    and "visual_ok m1" and "visual_ok m3" and "visual_ok m4"
  shows "\<exists>d'. handle_globals d [(m1, p1), (m2, p2), (m3, p3), (m4, p4)] = Inr d'
    \<and> map global_id (global_list d') = [g1, g2, g3, g4]
    \<and> wl_display_get_argb_visual d' = Visual \<lparr>visual_proxy_id = g1\<rparr>
    \<and> wl_display_get_premultiplied_argb_visual d' = Visual \<lparr>visual_proxy_id = g3\<rparr>
    \<and> wl_display_get_rgb_visual d' = Visual \<lparr>visual_proxy_id = g4\<rparr>
    \<and> wl_display_get_object_id d' (cstr ''other'') = g2
    \<and> wl_display_get_object_id d' (cstr ''visual'') = g1"
proof -
  let ?g = "\<lambda>p gid name. \<lparr>global_id = gid, global_interface = name,
       global_version = read_word p (16 + 4 * DIV_ROUNDUP (length name) 4)\<rparr>"
  let ?d1 = "record_global (visual_ok m1) d (?g p1 g1 (cstr ''visual''))"
  let ?d2 = "record_global (visual_ok m2) ?d1 (?g p2 g2 (cstr ''other''))"
  let ?d3 = "record_global (visual_ok m3) ?d2 (?g p3 g3 (cstr ''visual''))"
  let ?d4 = "record_global (visual_ok m4) ?d3 (?g p4 g4 (cstr ''visual''))"
  have h1: "handle_global m1 d p1 8 sz = Inr ?d1" for sz
    using assms(7) by (intro handle_global_holds [OF assms(3)]) simp_all
  have h2: "handle_global m2 ?d1 p2 8 sz = Inr ?d2" for sz
    using assms(8) by (intro handle_global_holds [OF assms(4)]) simp_all
  have h3: "handle_global m3 ?d2 p3 8 sz = Inr ?d3" for sz
    using assms(9) by (intro handle_global_holds [OF assms(5)]) simp_all
  have h4: "handle_global m4 ?d3 p4 8 sz = Inr ?d4" for sz
    using assms(10) by (intro handle_global_holds [OF assms(6)]) simp_all
  have run: "handle_globals d [(m1, p1), (m2, p2), (m3, p3), (m4, p4)] = Inr ?d4"
    by (simp add: h1 h2 h3 h4)
  have vs: "visual_list ?d4 =
      [\<lparr>visual_proxy_id = g1\<rparr>, \<lparr>visual_proxy_id = g3\<rparr>, \<lparr>visual_proxy_id = g4\<rparr>]"
    using assms(2) assms(11-13)
    by (simp add: record_global_lists strcmp_visual_other strcmp_refl)
  have gs: "global_list ?d4 = [?g p1 g1 (cstr ''visual''), ?g p2 g2 (cstr ''other''),
      ?g p3 g3 (cstr ''visual''), ?g p4 g4 (cstr ''visual'')]"
    using assms(1) by (simp add: record_global_lists)
  have ids: "map global_id (global_list ?d4) = [g1, g2, g3, g4]"
    unfolding gs by simp
  have v1: "wl_display_get_argb_visual ?d4 = Visual \<lparr>visual_proxy_id = g1\<rparr>"
    unfolding wl_display_get_argb_visual_def vs by (simp add: list_next_def container_of_def)
  have v2: "wl_display_get_premultiplied_argb_visual ?d4 = Visual \<lparr>visual_proxy_id = g3\<rparr>"
    unfolding wl_display_get_premultiplied_argb_visual_def vs
    by (simp add: list_next_def container_of_def)
  have v3: "wl_display_get_rgb_visual ?d4 = Visual \<lparr>visual_proxy_id = g4\<rparr>"
    unfolding wl_display_get_rgb_visual_def vs
    by (simp add: list_next_def container_of_def)
  have "strcmp_eq0 (cstr ''visual'') (cstr ''other'') = False"
    by (simp add: strcmp_eq0_def cstr_def)
  then have o: "wl_display_get_object_id ?d4 (cstr ''other'') = g2"
    unfolding wl_display_get_object_id_def gs by (simp add: strcmp_refl)
  have f: "wl_display_get_object_id ?d4 (cstr ''visual'') = g1"
    unfolding wl_display_get_object_id_def gs by (simp add: strcmp_refl)
  show ?thesis
    by (rule exI [of _ ?d4]) (intro conjI run ids v1 v2 v3 o f)
qed

text \<open>Four events of a server, copied into the array one after the other.\<close>

theorem visual_insertion_order_witness:
  "\<exists>d'. handle_globals (fresh_display 100) (four_globals all_ok) = Inr d'
    \<and> map global_id (global_list d') = [21, 22, 23, 24]
    \<and> wl_display_get_argb_visual d' = Visual \<lparr>visual_proxy_id = 21\<rparr>
    \<and> wl_display_get_premultiplied_argb_visual d' = Visual \<lparr>visual_proxy_id = 23\<rparr>
    \<and> wl_display_get_rgb_visual d' = Visual \<lparr>visual_proxy_id = 24\<rparr>
    \<and> wl_display_get_object_id d' (cstr ''other'') = 22
    \<and> wl_display_get_object_id d' (cstr ''visual'') = 21"
proof -
  have g: "global_list (fresh_display 100) = []" and v: "visual_list (fresh_display 100) = []"
    by (simp_all add: fresh_display_def)
  have h1: "holds_global (scratch_of (message 1 3 (global_payload 21 (cstr ''visual'') 1)))
      21 (cstr ''visual'')"
    by code_simp
  have h2: "holds_global (scratch_of (message 1 3 (global_payload 22 (cstr ''other'') 1)))
      22 (cstr ''other'')"
    by code_simp
  have h3: "holds_global (scratch_of (message 1 3 (global_payload 23 (cstr ''visual'') 1)))
      23 (cstr ''visual'')"
    by code_simp
  have h4: "holds_global (scratch_of (message 1 3 (global_payload 24 (cstr ''visual'') 1)))
      24 (cstr ''visual'')"
    by code_simp
  have ok: "global_ok all_ok \<and> interface_ok all_ok" and vok: "visual_ok all_ok"
    by (simp_all add: all_ok_def)
  show ?thesis
    unfolding four_globals_def
    by (rule visual_insertion_order [OF g v h1 h2 h3 h4 ok ok ok ok vok vok vok])
qed

text \<open>
  C6 as stated fails when \<open>malloc\<close> gives \<open>NULL\<close> in \<open>add_visual\<close> for the first
  global: the four globals are recorded in their order, the accessor of the ARGB visual
  gives the visual of the 3rd global, and the accessor of the RGB visual gives no visual.
\<close>

theorem visual_insertion_order_counterexample:
  "\<not> isl (handle_globals (fresh_display 100) (four_globals visual_fails))
   \<and> map global_id
         (global_list (projr (handle_globals (fresh_display 100) (four_globals visual_fails))))
       = [21, 22, 23, 24]
   \<and> map global_interface
         (global_list (projr (handle_globals (fresh_display 100) (four_globals visual_fails))))
       = [cstr ''visual'', cstr ''other'', cstr ''visual'', cstr ''visual'']
   \<and> wl_display_get_argb_visual
         (projr (handle_globals (fresh_display 100) (four_globals visual_fails)))
       = Visual \<lparr>visual_proxy_id = 23\<rparr>
   \<and> wl_display_get_rgb_visual
         (projr (handle_globals (fresh_display 100) (four_globals visual_fails)))
       = Not_a_visual"
proof (intro conjI)
  show "\<not> isl (handle_globals (fresh_display 100) (four_globals visual_fails))"
    by code_simp
  show "map global_id
         (global_list (projr (handle_globals (fresh_display 100) (four_globals visual_fails))))
       = [21, 22, 23, 24]"
    by code_simp
  show "map global_interface
         (global_list (projr (handle_globals (fresh_display 100) (four_globals visual_fails))))
       = [cstr ''visual'', cstr ''other'', cstr ''visual'', cstr ''visual'']"
    by code_simp
  show "wl_display_get_argb_visual
         (projr (handle_globals (fresh_display 100) (four_globals visual_fails)))
       = Visual \<lparr>visual_proxy_id = 23\<rparr>"
    by code_simp
  show "wl_display_get_rgb_visual
         (projr (handle_globals (fresh_display 100) (four_globals visual_fails)))
       = Not_a_visual"
    by code_simp
qed

lemma handle_global_list:
  assumes "handle_global m d buf 8 sz = Inr d'"
  shows "global_list d' = global_list d
    \<or> (\<exists>g. global_list d' = global_list d @ [g] \<and> global_interface g = global_name buf)"
  using assms
  by (auto simp: handle_global_def Let_def record_global_lists global_name_def
      split: if_splits)

lemma handle_globals_miss:
  assumes "handle_globals d bufs = Inr d'"
    and "\<forall>g\<in>set (global_list d). \<not> strcmp_eq0 (global_interface g) interface"
    and "\<forall>b\<in>set bufs. \<not> strcmp_eq0 (global_name (snd b)) interface"
  shows "\<forall>g\<in>set (global_list d'). \<not> strcmp_eq0 (global_interface g) interface"
  using assms
proof (induction bufs arbitrary: d)
  case Nil
  then show ?case by simp
next
  case (Cons b bufs)
  obtain m buf where b: "b = (m, buf)" by (cases b)
  from Cons.prems(1) b obtain d1 where
    one: "handle_global m d buf 8 (of_nat (length buf)) = Inr d1"
    and rest: "handle_globals d1 bufs = Inr d'"
    by (auto split: sum.splits)
  from Cons.prems(3) b have nb: "\<not> strcmp_eq0 (global_name buf) interface" by simp
  from handle_global_list [OF one] Cons.prems(2) nb
  have "\<forall>g\<in>set (global_list d1). \<not> strcmp_eq0 (global_interface g) interface"
    by auto
  with Cons.IH [OF rest] Cons.prems(3) show ?case by simp
qed

lemma container_of_not_Null: "container_of vs l \<noteq> Null"
  by (simp add: container_of_def split: link.splits)

text \<open>
  C7 (amended). A lookup of an interface name that no recorded global carries returns 0,
  before and after any number of globals of other names are recorded. The accessor of
  the k-th visual returns the k-th visual recorded when at least k are; it has no
  not-found result: it never returns \<open>NULL\<close>.
\<close>

theorem lookup_miss_returns_zero:
  assumes "\<forall>g\<in>set (global_list d). \<not> strcmp_eq0 (global_interface g) interface"
    and "handle_globals d bufs = Inr d'"
    and "\<forall>b\<in>set bufs. \<not> strcmp_eq0 (global_name (snd b)) interface"
  shows "wl_display_get_object_id d interface = 0
    \<and> wl_display_get_object_id d' interface = 0
    \<and> (1 \<le> length (visual_list d) \<longrightarrow>
         wl_display_get_argb_visual d = Visual (visual_list d ! 0))
    \<and> (2 \<le> length (visual_list d) \<longrightarrow>
         wl_display_get_premultiplied_argb_visual d = Visual (visual_list d ! 1))
    \<and> (3 \<le> length (visual_list d) \<longrightarrow>
         wl_display_get_rgb_visual d = Visual (visual_list d ! 2))
    \<and> wl_display_get_argb_visual d \<noteq> Null
    \<and> wl_display_get_premultiplied_argb_visual d \<noteq> Null
    \<and> wl_display_get_rgb_visual d \<noteq> Null"
proof -
  have a: "wl_display_get_object_id d interface = 0"
    unfolding wl_display_get_object_id_def using assms(1) by (rule find_global_miss)
  have b: "wl_display_get_object_id d' interface = 0"
    unfolding wl_display_get_object_id_def
    using handle_globals_miss [OF assms(2) assms(1) assms(3)] by (rule find_global_miss)
  have c: "wl_display_get_argb_visual d = Visual (visual_list d ! 0)"
    if "1 \<le> length (visual_list d)"
    using that by (auto simp: wl_display_get_argb_visual_def list_next_def container_of_def)
  have e: "wl_display_get_premultiplied_argb_visual d = Visual (visual_list d ! 1)"
    if "2 \<le> length (visual_list d)"
    using that
    by (auto simp: wl_display_get_premultiplied_argb_visual_def list_next_def container_of_def)
  have f: "wl_display_get_rgb_visual d = Visual (visual_list d ! 2)"
    if "3 \<le> length (visual_list d)"
    using that
    by (auto simp: wl_display_get_rgb_visual_def list_next_def container_of_def numeral_2_eq_2)
  have n: "wl_display_get_argb_visual d \<noteq> Null"
    "wl_display_get_premultiplied_argb_visual d \<noteq> Null"
    "wl_display_get_rgb_visual d \<noteq> Null"
    by (simp_all add: wl_display_get_argb_visual_def wl_display_get_premultiplied_argb_visual_def
        wl_display_get_rgb_visual_def container_of_not_Null)
  from a b c e f n show ?thesis by blast
qed

text \<open>
  A session that has recorded one visual looks up "nonexistent" before and after a
  global named "other" is recorded, and asks for its first visual.
\<close>

theorem lookup_miss_returns_zero_witness:
  "\<exists>d'. handle_globals
           (record_global True (fresh_display 100)
              \<lparr>global_id = 21, global_interface = cstr ''visual'', global_version = 1\<rparr>)
           [(all_ok, scratch_of (message 1 3 (global_payload 22 (cstr ''other'') 1)))] = Inr d'
     \<and> wl_display_get_object_id
          (record_global True (fresh_display 100)
              \<lparr>global_id = 21, global_interface = cstr ''visual'', global_version = 1\<rparr>)
          (cstr ''nonexistent'') = 0
     \<and> wl_display_get_object_id d' (cstr ''nonexistent'') = 0
     \<and> wl_display_get_argb_visual
          (record_global True (fresh_display 100)
              \<lparr>global_id = 21, global_interface = cstr ''visual'', global_version = 1\<rparr>)
        = Visual \<lparr>visual_proxy_id = 21\<rparr>"
proof -
  let ?d = "record_global True (fresh_display 100)
              \<lparr>global_id = 21, global_interface = cstr ''visual'', global_version = 1\<rparr>"
  let ?bufs = "[(all_ok, scratch_of (message 1 3 (global_payload 22 (cstr ''other'') 1)))]"
  have "\<not> isl (handle_globals ?d ?bufs)" by code_simp
  then have run: "handle_globals ?d ?bufs = Inr (projr (handle_globals ?d ?bufs))"
    by simp
  have miss: "\<forall>g\<in>set (global_list ?d). \<not> strcmp_eq0 (global_interface g) (cstr ''nonexistent'')"
    by code_simp
  have other: "\<forall>b\<in>set ?bufs. \<not> strcmp_eq0 (global_name (snd b)) (cstr ''nonexistent'')"
    by code_simp
  have one: "1 \<le> length (visual_list ?d)" and first: "visual_list ?d ! 0 = \<lparr>visual_proxy_id = 21\<rparr>"
    by code_simp+
  from lookup_miss_returns_zero [OF miss run other] one first run show ?thesis
    by metis
qed

text \<open>
  C7 as stated fails: with no visual recorded the first accessor returns the address
  computed from the list head, and with one visual recorded the third accessor comes
  round to that visual.
\<close>

theorem visual_accessor_counterexample:
  "wl_display_get_argb_visual (fresh_display 100) = Not_a_visual
   \<and> wl_display_get_rgb_visual
        (add_visual True (fresh_display 100)
           \<lparr>global_id = 21, global_interface = cstr ''visual'', global_version = 1\<rparr>)
      = Visual \<lparr>visual_proxy_id = 21\<rparr>"
  by (simp add: wl_display_get_argb_visual_def wl_display_get_rgb_visual_def add_visual_def
      fresh_display_def list_next_def container_of_def)

section \<open>Creation of a session\<close>

lemma handle_global_proxy:
  "handle_global m d buf p sz = Inr d' \<Longrightarrow> display_proxy d' = display_proxy d"
  by (auto simp: handle_global_def record_global_def add_visual_def Let_def split: if_splits)

lemma handle_event_proxy:
  "handle_event GLOBAL junk m d object opcode sz = Inr d' \<Longrightarrow>
     display_proxy d' = display_proxy d"
  by (auto simp: handle_event_def Let_def split: if_splits option.splits sum.splits
      dest!: handle_global_proxy)

lemma iterate_loop_proxy:
  assumes "wl_display_iterate_loop GLOBAL junk ms d len = Some r"
  shows "case r of Inl e \<Rightarrow> True | Inr (d', len') \<Rightarrow> display_proxy d' = display_proxy d"
proof (rule wl_display_iterate_loop.raw_induct
    [where P = "\<lambda>G j ms d l r. case r of Inl e \<Rightarrow> True
                    | Inr (d', len') \<Rightarrow> display_proxy d' = display_proxy d"], goal_cases)
  case (1 loop G j ms d len r)
  note IH = "1"(1) and eq = "1"(2)
  show ?case
  proof (cases "0 < len \<and> \<not> len < 8")
    case False
    with eq show ?thesis by (auto split: if_splits)
  next
    case True
    show ?thesis
    proof (cases "wl_connection_copy (connection d) 8")
      case None
      with True eq show ?thesis by auto
    next
      case (Some p)
      show ?thesis
      proof (cases "len < uint (header_size p)")
        case stall: True
        with True Some eq show ?thesis by auto
      next
        case go: False
        show ?thesis
        proof (cases "handle_event G (j 0) (ms 0) d (header_object p) (header_opcode p)
                        (header_size p)")
          case (Inl e)
          with True Some go eq show ?thesis by auto
        next
          case (Inr d1)
          with True Some go eq
          have rec: "loop G (\<lambda>n. j (Suc n)) (\<lambda>n. ms (Suc n)) d1
              (len - uint (header_size p)) = Some r"
            by auto
          from IH [OF rec] handle_event_proxy [OF Inr] show ?thesis
            by (auto split: sum.splits)
        qed
      qed
    qed
  qed
qed (rule assms)

lemma iterate_proxy:
  assumes "wl_display_iterate GLOBAL junk ms d poll_mask = Some (Inr d')"
  shows "display_proxy d' = display_proxy d"
proof -
  from assms obtain len' where
    "wl_display_iterate_loop GLOBAL junk ms d (wl_connection_data (connection d) poll_mask)
       = Some (Inr (d', len'))"
    by (auto simp: wl_display_iterate_def split: option.splits sum.splits if_splits)
  from iterate_loop_proxy [OF this] show ?thesis by simp
qed

lemma create_proxy_id:
  assumes "wl_display_create GLOBAL junk ms wl_display_interface READABLE malloc_ok socket_ok
             connect_ok seed conn = Some (Inr (Some d))"
  shows "proxy_id (display_proxy d) = 0"
proof -
  let ?d0 = "\<lparr>display_proxy = \<lparr>proxy_interface = wl_display_interface, proxy_id = 0\<rparr>,
                  connection = conn, display_id = seed, global_list = [], visual_list = [],
                  event_handler = None, handler_calls = []\<rparr>"
  let ?d1 = "?d0\<lparr>display_proxy :=
                      \<lparr>proxy_interface = wl_display_interface,
                       proxy_id = wl_display_get_object_id ?d0 (cstr ''display'')\<rparr>\<rparr>"
  from assms have "wl_display_iterate GLOBAL junk ms ?d1 READABLE = Some (Inr d)"
    by (auto simp: wl_display_create_def Let_def split: if_splits option.splits sum.splits)
  from iterate_proxy [OF this] show ?thesis
    by (simp add: wl_display_get_object_id_def)
qed

text \<open>
  C9, evaluated. The server advertises its display object under the id 1 and the
  session is created: the registry then knows "display" as 1, and the session's own
  proxy carries the id 0.
\<close>

theorem display_proxy_id_is_zero:
  "(case wl_display_create 3 (\<lambda>k i. 0) (\<lambda>k. all_ok) example_interface 1 True True True 100
          (arrive display_global_stream empty_connection) of
      Some (Inr (Some d)) \<Rightarrow>
        proxy_id (display_proxy d) = 0 \<and> wl_display_get_object_id d (cstr ''display'') = 1
    | _ \<Rightarrow> False)"
  by code_simp

section \<open>Memory\<close>

lemma load_store_word: "load_word (store_word w) = w"
  unfolding load_word_def store_word_def
  apply simp
  apply (rule bit_word_eqI)
  apply (simp add: bit_simps)
  subgoal for n
    apply (cases "n < 8"; cases "n < 16"; cases "n < 24")
           apply (auto simp: not_less not_le)
    done
  done

lemma length_store_word: "length (store_word w) = 4"
  by (simp add: store_word_def)

lemma length_uninitialised: "length (uninitialised junk n) = n"
  by (simp add: uninitialised_def)

lemma length_write_bytes:
  "off + length bs \<le> length buf \<Longrightarrow> length (write_bytes buf off bs) = length buf"
  by (simp add: write_bytes_def)

lemma DIV_ROUNDUP_4: "n \<le> 4 * DIV_ROUNDUP n 4" "4 * DIV_ROUNDUP n 4 < n + 4"
  by (simp_all add: DIV_ROUNDUP_def)

lemma strlen_le: "strlen s \<le> length s"
  by (simp add: strlen_def length_takeWhile_le)

lemma strlen_c_string:
  assumes "0 \<notin> set s"
  shows "strlen s = length s"
  using assms by (induction s) (auto simp: strlen_def)

lemma take_write_bytes:
  "off \<le> length buf \<Longrightarrow> length bs = n \<Longrightarrow>
     take (off + n) (write_bytes buf off bs) = take off buf @ bs"
  by (simp add: write_bytes_def)

lemma drop_write_bytes:
  "off + n \<le> length buf \<Longrightarrow> length bs = n \<Longrightarrow>
     drop (off + n + k) (write_bytes buf off bs) = drop (off + n + k) buf"
  by (simp add: write_bytes_def ac_simps)

lemma write_bytes_split:
  "length bs = n \<Longrightarrow> write_bytes buf off bs = take off buf @ bs @ drop (off + n) buf"
  by (simp add: write_bytes_def)


section \<open>Marshalling\<close>

lemma args_size_Cons: "args_size (a # ap) = arg_size a + args_size ap"
  by (simp add: args_size_def)

lemma args_size_append: "args_size (ap @ bp) = args_size ap + args_size bp"
  by (simp add: args_size_def)

lemma length_field_layout:
  "p + arg_size a \<le> length buf \<Longrightarrow> length (field_layout buf p a) = arg_size a"
proof (cases a)
  case (Arg_string s)
  assume "p + arg_size a \<le> length buf"
  with Arg_string DIV_ROUNDUP_4 [of "strlen s"] strlen_le [of s] show ?thesis
    by (simp add: length_store_word read_bytes_def)
qed (simp_all add: length_store_word)

lemma length_fields_layout:
  "p + args_size ap \<le> length buf \<Longrightarrow> length (fields_layout buf p ap) = args_size ap"
proof (induction ap arbitrary: p)
  case Nil
  then show ?case by (simp add: args_size_def)
next
  case (Cons a ap)
  from Cons.prems have "p + arg_size a \<le> length buf"
    and "p + arg_size a + args_size ap \<le> length buf"
    by (simp_all add: args_size_Cons)
  with Cons.IH [of "p + arg_size a"] show ?case
    by (simp add: length_field_layout args_size_Cons)
qed

lemma field_layout_cong:
  "drop p buf = drop p buf' \<Longrightarrow> field_layout buf p a = field_layout buf' p a"
proof (cases a)
  case (Arg_string s)
  assume eq: "drop p buf = drop p buf'"
  have "drop (p + 4 + strlen s) buf = drop (4 + strlen s) (drop p buf)"
    by (simp add: add.commute add.left_commute)
  also have "\<dots> = drop (4 + strlen s) (drop p buf')" by (simp only: eq)
  also have "\<dots> = drop (p + 4 + strlen s) buf'"
    by (simp add: add.commute add.left_commute)
  finally show ?thesis using Arg_string by (simp add: read_bytes_def)
qed simp_all

lemma drop_drop_eq:
  "drop p buf = drop p buf' \<Longrightarrow> drop (p + k) buf = drop (p + k) buf'"
proof -
  assume eq: "drop p buf = drop p buf'"
  have "drop (p + k) buf = drop k (drop p buf)" by (simp add: add.commute)
  also have "\<dots> = drop k (drop p buf')" by (simp only: eq)
  also have "\<dots> = drop (p + k) buf'" by (simp add: add.commute)
  finally show ?thesis .
qed

lemma fields_layout_cong:
  "drop p buf = drop p buf' \<Longrightarrow> fields_layout buf p ap = fields_layout buf' p ap"
proof (induction ap arbitrary: p)
  case Nil
  then show ?case by simp
next
  case (Cons a ap)
  from Cons.prems have "drop (p + arg_size a) buf = drop (p + arg_size a) buf'"
    by (rule drop_drop_eq)
  from Cons.IH [OF this] field_layout_cong [OF Cons.prems] show ?case by simp
qed

lemma fields_layout_append:
  "fields_layout buf p (ap @ bp) =
     fields_layout buf p ap @ fields_layout buf (p + args_size ap) bp"
  by (induction ap arbitrary: p) (simp_all add: args_size_def add.assoc)

text \<open>One turn of the switch writes the field at \<open>p\<close> and nothing else.\<close>

lemma marshal_arg_layout:
  assumes m: "arg_matches c a" and fit: "p + arg_size a \<le> length buf"
    and small: "length buf < 2 ^ 32"
  shows "marshal_arg c (a # ap) buf p =
    Inr (ap, take p buf @ field_layout buf p a @ drop (p + arg_size a) buf, p + arg_size a)"
proof (cases a)
  case (Arg_uint v)
  with m fit show ?thesis
    by (simp add: marshal_arg_def put_word_def write_bytes_def length_store_word)
next
  case (Arg_proxy proxy)
  with m fit show ?thesis
    by (auto simp: marshal_arg_def put_word_def write_bytes_def length_store_word)
next
  case (Arg_string s)
  let ?n = "strlen s"
  let ?r = "4 * DIV_ROUNDUP ?n 4"
  from fit Arg_string have fit': "p + 4 + ?r \<le> length buf" by simp
  with DIV_ROUNDUP_4(1) [of ?n] have fitn: "p + 4 + ?n \<le> length buf" by simp
  with small have "?n < 2 ^ 32" by simp
  then have un: "unat (of_nat ?n :: uint32_t) = ?n"
    by (simp add: unat_of_nat)
  have c: "c = CHR ''s''" using m Arg_string by simp
  let ?a1 = "write_bytes buf p (store_word (of_nat ?n))"
  have put: "put_word buf p (of_nat ?n) = Inr ?a1"
    using fitn by (simp add: put_word_def)
  have len1: "length ?a1 = length buf"
    using fitn by (simp add: length_write_bytes length_store_word)
  have lt: "length (take ?n s) = ?n"
    using strlen_le [of s] by simp
  have res: "write_bytes ?a1 (p + 4) (take ?n s) =
      take p buf @ field_layout buf p a @ drop (p + arg_size a) buf"
  proof -
    have "write_bytes ?a1 (p + 4) (take ?n s) =
        take (p + 4) ?a1 @ take ?n s @ drop (p + 4 + ?n) ?a1"
      using lt by (rule write_bytes_split)
    moreover have "take (p + 4) ?a1 = take p buf @ store_word (of_nat ?n)"
      using fitn by (intro take_write_bytes) (simp_all add: length_store_word)
    moreover have "drop (p + 4 + ?n) ?a1 = drop (p + 4 + ?n) buf"
      using fitn by (intro drop_write_bytes) (simp_all add: length_store_word)
    moreover have "drop (p + 4 + ?n) buf =
        read_bytes buf (p + 4 + ?n) (?r - ?n) @ drop (p + 4 + ?r) buf"
    proof -
      have idx: "(?r - ?n) + (p + 4 + ?n) = p + 4 + ?r"
        using DIV_ROUNDUP_4(1) [of ?n] by simp
      have e: "drop (?r - ?n) (drop (p + 4 + ?n) buf) = drop (p + 4 + ?r) buf"
        by (simp only: drop_drop idx)
      have "drop (p + 4 + ?n) buf =
          take (?r - ?n) (drop (p + 4 + ?n) buf) @ drop (?r - ?n) (drop (p + 4 + ?n) buf)"
        by (simp only: append_take_drop_id)
      then show ?thesis by (simp only: read_bytes_def e)
    qed
    ultimately show ?thesis using Arg_string by (simp add: add.assoc)
  qed
  show ?thesis
    using c Arg_string put len1 fitn un res
    by (simp add: marshal_arg_def Let_def)
qed

lemma marshal_loop_layout:
  assumes "list_all2 arg_matches sig ap" and "p + args_size ap \<le> length buf"
    and "length buf < 2 ^ 32"
  shows "marshal_loop sig (ap @ rest) buf p =
    Inr (rest, take p buf @ fields_layout buf p ap @ drop (p + args_size ap) buf,
         p + args_size ap)"
  using assms
proof (induction sig ap arbitrary: p buf rule: list_all2_induct)
  case Nil
  then show ?case by (simp add: args_size_def)
next
  case (Cons c sig a ap)
  let ?k = "arg_size a"
  let ?F = "field_layout buf p a"
  let ?buf1 = "take p buf @ ?F @ drop (p + ?k) buf"
  from Cons.prems have fit1: "p + ?k \<le> length buf"
    and fit2: "p + ?k + args_size ap \<le> length buf"
    by (simp_all add: args_size_Cons)
  have lenF: "length ?F = ?k" using fit1 by (rule length_field_layout)
  have len1: "length ?buf1 = length buf" using fit1 lenF by simp
  have step: "marshal_arg c (a # ap @ rest) buf p = Inr (ap @ rest, ?buf1, p + ?k)"
    using Cons.hyps(1) fit1 Cons.prems(2) by (rule marshal_arg_layout)
  have d1: "drop (p + ?k) ?buf1 = drop (p + ?k) buf"
    using fit1 lenF by simp
  have t1: "take (p + ?k) ?buf1 = take p buf @ ?F"
    using fit1 lenF by simp
  have IH: "marshal_loop sig (ap @ rest) ?buf1 (p + ?k) =
      Inr (rest, take (p + ?k) ?buf1 @ fields_layout ?buf1 (p + ?k) ap
                 @ drop (p + ?k + args_size ap) ?buf1, p + ?k + args_size ap)"
    using fit2 Cons.prems(2) len1 by (intro Cons.IH) simp_all
  have "fields_layout ?buf1 (p + ?k) ap = fields_layout buf (p + ?k) ap"
    using d1 by (rule fields_layout_cong)
  moreover have "drop (p + ?k + args_size ap) ?buf1 = drop (p + ?k + args_size ap) buf"
    using d1 by (rule drop_drop_eq)
  ultimately show ?case
    using step IH t1 by (simp add: args_size_Cons add.assoc)
qed


lemma signature_no_NUL:
  "list_all2 arg_matches sig ap \<Longrightarrow> take (strlen_sig sig) sig = sig"
proof -
  assume "list_all2 arg_matches sig ap"
  then have "\<forall>c\<in>set sig. c \<noteq> CHR 0x00"
  proof (induction rule: list_all2_induct)
    case Nil
    then show ?case by simp
  next
    case (Cons c sig a ap)
    then show ?case by (cases a) auto
  qed
  then have eq: "takeWhile (\<lambda>c. c \<noteq> CHR 0x00) sig = sig"
    by (simp add: takeWhile_eq_all_conv)
  have "strlen_sig sig = length sig"
    by (simp only: strlen_sig_def eq)
  then show ?thesis by simp
qed

lemma unat_of_nat_small: "n \<le> 128 \<Longrightarrow> unat (of_nat n :: uint32_t) = n"
  by (simp add: unat_of_nat)

lemma vmarshal_message:
  assumes op: "unat opcode < length (methods (proxy_interface target))"
    and m: "list_all2 arg_matches (methods (proxy_interface target) ! unat opcode) ap"
    and fit: "8 + args_size ap \<le> 128"
  shows "wl_proxy_vmarshal junk d target opcode ap =
    Inr (d\<lparr>connection := (connection d)\<lparr>out_writes :=
           out_writes (connection d) @ [wire_message junk target opcode ap]\<rparr>\<rparr>)"
proof -
  let ?sig = "methods (proxy_interface target) ! unat opcode"
  let ?buf = "uninitialised junk 128"
  let ?n = "args_size ap"
  let ?L = "fields_layout ?buf 8 ap"
  let ?B = "take 8 ?buf @ ?L @ drop (8 + ?n) ?buf"
  let ?id = "store_word (proxy_id target)"
  let ?hdr = "store_word (opcode OR push_bit 16 (of_nat (8 + ?n)))"
  have len: "length ?buf = 128" by (rule length_uninitialised)
  have lenL: "length ?L = ?n" using fit by (intro length_fields_layout) (simp add: len)
  have loop: "marshal_loop ?sig (ap @ []) ?buf 8 = Inr ([], ?B, 8 + ?n)"
    using m fit by (intro marshal_loop_layout) (simp_all add: len)
  have lenB: "length ?B = 128" using fit lenL by (simp add: len)
  let ?a1 = "write_bytes ?B 0 ?id"
  let ?a2 = "write_bytes ?a1 4 ?hdr"
  have a1: "?a1 = ?id @ drop 4 ?B"
    by (simp add: write_bytes_def length_store_word)
  have "?a2 = take 4 ?a1 @ ?hdr @ drop 8 ?a1"
    by (simp add: write_bytes_def length_store_word)
  moreover have "take 4 ?a1 = ?id" unfolding a1 by (simp add: length_store_word)
  moreover have "drop 8 ?a1 = ?L @ drop (8 + ?n) ?buf"
    unfolding a1 by (simp add: length_store_word len)
  ultimately have a2: "?a2 = ?id @ ?hdr @ ?L @ drop (8 + ?n) ?buf" by simp
  have msg: "take (8 + ?n) ?a2 = wire_message junk target opcode ap"
    unfolding a2 wire_message_def by (simp add: length_store_word lenL)
  have sz: "unat (of_nat (8 + ?n) :: uint32_t) = 8 + ?n"
    using fit by (rule unat_of_nat_small)
  show ?thesis
    using op loop msg sz signature_no_NUL [OF m]
    by (simp add: wl_proxy_vmarshal_def Let_def wl_connection_write_def)
qed

section \<open>Decoding\<close>

lemma read_word_at:
  "length bs = 4 \<Longrightarrow> read_word (pre @ bs @ post) (length pre) = load_word bs"
  by (simp add: read_word_def read_bytes_def)

lemma demarshal_arg_layout:
  assumes m: "arg_matches c a" and cs: "c_string_arg a"
    and fit: "length pre + arg_size a \<le> length buf" and small: "length buf < 2 ^ 32"
  shows "demarshal_arg c (pre @ field_layout buf (length pre) a @ post) (length pre) =
    Some (arg_value a, length pre + arg_size a)"
proof (cases a)
  case (Arg_uint v)
  with m read_word_at [of "store_word v" pre post] show ?thesis
    by (auto simp: demarshal_arg_def length_store_word load_store_word)
next
  case (Arg_proxy proxy)
  with m read_word_at [of "store_word (proxy_id proxy)" pre post] show ?thesis
    by (auto simp: demarshal_arg_def length_store_word load_store_word)
next
  case (Arg_string s)
  let ?n = "length s"
  let ?r = "4 * DIV_ROUNDUP ?n 4"
  let ?pad = "read_bytes buf (length pre + 4 + ?n) (?r - ?n)"
  from cs Arg_string have n: "strlen s = ?n" by (simp add: strlen_c_string)
  from m Arg_string have c: "c = CHR ''s''" by simp
  from fit Arg_string n DIV_ROUNDUP_4(1) [of ?n] small have "?n < 2 ^ 32" by simp
  then have un: "unat (of_nat ?n :: uint32_t) = ?n" by (simp add: unat_of_nat)
  have F: "field_layout buf (length pre) a = store_word (of_nat ?n) @ s @ ?pad"
    using Arg_string n by simp
  have w: "read_word (pre @ field_layout buf (length pre) a @ post) (length pre) = of_nat ?n"
    unfolding F using read_word_at [of "store_word (of_nat ?n)" pre "s @ ?pad @ post"]
    by (simp add: length_store_word load_store_word)
  have b: "read_bytes (pre @ field_layout buf (length pre) a @ post) (length pre + 4) ?n = s"
    unfolding F by (simp add: read_bytes_def length_store_word)
  have l: "length pre + 4 + ?n \<le> length (pre @ field_layout buf (length pre) a @ post)"
    unfolding F by (simp add: length_store_word)
  show ?thesis
    using c w b l un Arg_string n
    by (simp add: demarshal_arg_def Let_def)
qed

lemma demarshal_layout:
  assumes "list_all2 arg_matches sig ap" and "list_all c_string_arg ap"
    and "length pre + args_size ap \<le> length buf" and "length buf < 2 ^ 32"
  shows "demarshal sig (pre @ fields_layout buf (length pre) ap) (length pre) =
    Some (map arg_value ap, length pre + args_size ap)"
  using assms
proof (induction sig ap arbitrary: pre rule: list_all2_induct)
  case Nil
  then show ?case by (simp add: args_size_def)
next
  case (Cons c sig a ap)
  let ?p = "length pre"
  let ?F = "field_layout buf ?p a"
  from Cons.prems have fit1: "?p + arg_size a \<le> length buf"
    and fit2: "?p + arg_size a + args_size ap \<le> length buf"
    and cs: "c_string_arg a" and css: "list_all c_string_arg ap"
    by (simp_all add: args_size_Cons)
  have lenF: "length ?F = arg_size a" using fit1 by (rule length_field_layout)
  have one: "demarshal_arg c (pre @ ?F @ fields_layout buf (?p + arg_size a) ap) ?p =
      Some (arg_value a, ?p + arg_size a)"
    using Cons.hyps(1) cs fit1 Cons.prems(3) by (rule demarshal_arg_layout)
  have "demarshal sig ((pre @ ?F) @ fields_layout buf (length (pre @ ?F)) ap) (length (pre @ ?F))
      = Some (map arg_value ap, length (pre @ ?F) + args_size ap)"
    using css fit2 Cons.prems(3) lenF by (intro Cons.IH) simp_all
  then have rest: "demarshal sig (pre @ ?F @ fields_layout buf (?p + arg_size a) ap)
      (?p + arg_size a) = Some (map arg_value ap, ?p + arg_size a + args_size ap)"
    by (simp add: lenF)
  show ?case using one rest by (simp add: args_size_Cons add.assoc)
qed

lemma mask16: "(0xffff :: uint32_t) = mask 16"
  by (simp add: mask_eq_exp_minus_1)

lemma small_take_bit:
  fixes opcode :: uint32_t
  assumes "unat opcode < 2 ^ 16"
  shows "take_bit 16 opcode = opcode"
proof -
  from assms have "opcode < 2 ^ 16" by (simp add: word_less_nat_alt)
  then show ?thesis by (simp add: take_bit_eq_mask less_mask_eq)
qed

lemma header_unpack_opcode:
  fixes opcode sz :: uint32_t
  assumes "unat opcode < 2 ^ 16"
  shows "(opcode OR push_bit 16 sz) AND 0xffff = opcode"
proof -
  have "(opcode OR push_bit 16 sz) AND mask 16 = take_bit 16 opcode"
    by (rule bit_word_eqI) (auto simp: bit_simps)
  with small_take_bit [OF assms] show ?thesis by (simp add: mask16)
qed

lemma header_unpack_size:
  fixes opcode sz :: uint32_t
  assumes "unat opcode < 2 ^ 16" and "unat sz < 2 ^ 16"
  shows "drop_bit 16 (opcode OR push_bit 16 sz) = sz"
proof -
  have "drop_bit 16 (take_bit 16 opcode OR push_bit 16 (take_bit 16 sz)) = take_bit 16 sz"
    by (rule bit_word_eqI) (auto simp: bit_simps)
  with small_take_bit [OF assms(1)] small_take_bit [OF assms(2)] show ?thesis by simp
qed

text \<open>
  \<open>handle_global\<close> is this decoding for the three fields of a global, a word, a string
  and a word: what \<open>demarshal\<close> reads from the third word of the array on is what
  \<open>handle_global\<close> records.
\<close>

lemma handle_global_demarshal:
  assumes "demarshal ''usu'' buf 8 = Some ([Uint gid, String name, Uint version], q)"
    and "global_ok m" and "interface_ok m"
  shows "handle_global m d buf 8 sz =
    Inr (record_global (visual_ok m) d
          \<lparr>global_id = gid, global_interface = name, global_version = version\<rparr>)"
  using assms
  by (auto simp: demarshal_arg_def handle_global_def Let_def
      split: if_splits option.splits prod.splits)

lemma header_of_wire_message:
  "header_object (wire_message junk target opcode ap) = proxy_id target"
  "read_word (wire_message junk target opcode ap) 4 =
     opcode OR push_bit 16 (of_nat (8 + args_size ap))"
  by (simp_all add: header_object_def wire_message_def read_word_def read_bytes_def
      length_store_word load_store_word)

text \<open>
  C1 (amended). For arguments that match the signature of the method, whose strings hold
  no NUL byte and whose encoding with the two header words fits the 32 words of the
  array, \<open>wl_proxy_vmarshal\<close> hands one message to the transport; the message has the
  length of the encoding, its first word is the id of the target, and decoding it by the
  same signature from the third word on gives back the arguments (the strings byte for
  byte, the proxies as their ids) and ends exactly at the end of the message. When the
  opcode fits 16 bits, the header gives back the opcode and the length as well.
\<close>

theorem marshal_demarshal_roundtrip:
  assumes "unat opcode < length (methods (proxy_interface target))"
    and "list_all2 arg_matches (methods (proxy_interface target) ! unat opcode) ap"
    and "list_all c_string_arg ap"
    and "8 + args_size ap \<le> 128"
  shows "\<exists>m. wl_proxy_vmarshal junk d target opcode ap =
        Inr (d\<lparr>connection := (connection d)\<lparr>out_writes := out_writes (connection d) @ [m]\<rparr>\<rparr>)
    \<and> length m = 8 + args_size ap
    \<and> header_object m = proxy_id target
    \<and> demarshal (methods (proxy_interface target) ! unat opcode) m 8 =
        Some (map arg_value ap, length m)
    \<and> (unat opcode < 2 ^ 16 \<longrightarrow> header_opcode m = opcode \<and> unat (header_size m) = length m)"
proof -
  let ?m = "wire_message junk target opcode ap"
  let ?buf = "uninitialised junk 128"
  let ?pre = "store_word (proxy_id target)
       @ store_word (opcode OR push_bit 16 (of_nat (8 + args_size ap)))"
  have lenp: "length ?pre = 8" by (simp add: length_store_word)
  have lenb: "length ?buf = 128" by (rule length_uninitialised)
  have m: "?m = ?pre @ fields_layout ?buf (length ?pre) ap"
    by (simp add: wire_message_def length_store_word)
  have run: "wl_proxy_vmarshal junk d target opcode ap =
        Inr (d\<lparr>connection := (connection d)\<lparr>out_writes := out_writes (connection d) @ [?m]\<rparr>\<rparr>)"
    using assms(1,2,4) by (rule vmarshal_message)
  have len: "length ?m = 8 + args_size ap"
    using assms(4) by (simp add: wire_message_def length_store_word length_fields_layout lenb)
  have obj: "header_object ?m = proxy_id target"
    by (rule header_of_wire_message)
  have "demarshal (methods (proxy_interface target) ! unat opcode)
          (?pre @ fields_layout ?buf (length ?pre) ap) (length ?pre) =
        Some (map arg_value ap, length ?pre + args_size ap)"
    using assms(2,3,4) by (intro demarshal_layout) (simp_all add: length_store_word lenb)
  then have dec: "demarshal (methods (proxy_interface target) ! unat opcode) ?m 8 =
        Some (map arg_value ap, length ?m)"
    unfolding m [symmetric] len by (simp only: lenp)
  have hdr: "header_opcode ?m = opcode \<and> unat (header_size ?m) = length ?m"
    if op: "unat opcode < 2 ^ 16"
  proof -
    have sz: "unat (of_nat (8 + args_size ap) :: uint32_t) = 8 + args_size ap"
      using assms(4) by (rule unat_of_nat_small)
    with assms(4) have small: "unat (of_nat (8 + args_size ap) :: uint32_t) < 2 ^ 16"
      by simp
    have "header_opcode ?m = opcode"
      unfolding header_opcode_def header_of_wire_message using op
      by (rule header_unpack_opcode)
    moreover have "header_size ?m = of_nat (8 + args_size ap)"
      unfolding header_size_def header_of_wire_message using op small
      by (rule header_unpack_size)
    ultimately show ?thesis using sz len by simp
  qed
  show ?thesis
    using run len obj dec hdr by (intro exI [of _ ?m]) simp
qed

text \<open>
  A call with the signature "usu": an id, the string "visual" and a version, into an
  array that held the byte 0xAA everywhere.
\<close>

theorem marshal_demarshal_roundtrip_witness:
  "\<exists>m. wl_proxy_vmarshal (\<lambda>i. 0xAA) (fresh_display 100) (example_proxy 5) 3
          [Arg_uint 7, Arg_string (cstr ''visual''), Arg_uint 1] =
        Inr ((fresh_display 100)\<lparr>connection := (connection (fresh_display 100))\<lparr>out_writes :=
               out_writes (connection (fresh_display 100)) @ [m]\<rparr>\<rparr>)
    \<and> length m = 28
    \<and> header_object m = 5
    \<and> demarshal ''usu'' m 8 = Some ([Uint 7, String (cstr ''visual''), Uint 1], 28)
    \<and> header_opcode m = 3 \<and> unat (header_size m) = 28"
proof -
  let ?ap = "[Arg_uint 7, Arg_string (cstr ''visual''), Arg_uint 1]"
  have h1: "unat (3 :: uint32_t) < length (methods (proxy_interface (example_proxy 5)))"
    by (simp add: example_proxy_def example_interface_def)
  have sig: "methods (proxy_interface (example_proxy 5)) ! unat (3 :: uint32_t) = ''usu''"
    by (simp add: example_proxy_def example_interface_def)
  have h2: "list_all2 arg_matches
      (methods (proxy_interface (example_proxy 5)) ! unat (3 :: uint32_t)) ?ap"
    unfolding sig by simp
  have h3: "list_all c_string_arg ?ap"
    by code_simp
  have sz: "args_size ?ap = 20"
    by code_simp
  then have h4: "8 + args_size ?ap \<le> 128" by simp
  have id: "proxy_id (example_proxy 5) = 5" by (simp add: example_proxy_def)
  have op: "unat (3 :: uint32_t) < 2 ^ 16" by simp
  from marshal_demarshal_roundtrip [OF h1 h2 h3 h4, of "\<lambda>i. 0xAA" "fresh_display 100"]
  obtain m where
    r: "wl_proxy_vmarshal (\<lambda>i. 0xAA) (fresh_display 100) (example_proxy 5) 3 ?ap =
        Inr ((fresh_display 100)\<lparr>connection := (connection (fresh_display 100))\<lparr>out_writes :=
               out_writes (connection (fresh_display 100)) @ [m]\<rparr>\<rparr>)"
    and l: "length m = 8 + args_size ?ap"
    and o: "header_object m = proxy_id (example_proxy 5)"
    and dm: "demarshal (methods (proxy_interface (example_proxy 5)) ! unat (3 :: uint32_t)) m 8 =
        Some (map arg_value ?ap, length m)"
    and h: "unat (3 :: uint32_t) < 2 ^ 16 \<longrightarrow>
        header_opcode m = 3 \<and> unat (header_size m) = length m"
    by (elim exE conjE)
  from l have l': "length m = 28" by (simp only: sz)
  from h op have h': "header_opcode m = 3" "unat (header_size m) = length m" by simp_all
  have dm': "demarshal ''usu'' m 8 = Some ([Uint 7, String (cstr ''visual''), Uint 1], 28)"
    using dm unfolding sig l' by simp
  show ?thesis
    using r l' o dm' h' unfolding id by (intro exI [of _ m]) (simp del: demarshal.simps)
qed

text \<open>
  C1 as stated fails. A string of 117 bytes matches the signature "s" and does not fit:
  the copy runs past the array and no message is sent. A string with a NUL byte in it is
  sent up to that byte and decodes to that much.
\<close>

theorem marshal_demarshal_counterexample:
  "list_all2 arg_matches ''s'' [Arg_string (replicate 117 0x61)]
   \<and> wl_proxy_vmarshal (\<lambda>i. 0) (fresh_display 100) (example_proxy 5) 2
        [Arg_string (replicate 117 0x61)] = Inl (Undefined Args_overrun)
   \<and> map (\<lambda>m. demarshal ''s'' m 8)
        (out_writes (connection (projr
           (wl_proxy_vmarshal (\<lambda>i. 0) (fresh_display 100) (example_proxy 5) 2
              [Arg_string [0x61, 0, 0x62]]))))
      = [Some ([String [0x61]], 16)]"
proof (intro conjI)
  show "list_all2 arg_matches ''s'' [Arg_string (replicate 117 0x61)]"
    by simp
  show "wl_proxy_vmarshal (\<lambda>i. 0) (fresh_display 100) (example_proxy 5) 2
        [Arg_string (replicate 117 0x61)] = Inl (Undefined Args_overrun)"
    by code_simp
  show "map (\<lambda>m. demarshal ''s'' m 8)
        (out_writes (connection (projr
           (wl_proxy_vmarshal (\<lambda>i. 0) (fresh_display 100) (example_proxy 5) 2
              [Arg_string [0x61, 0, 0x62]]))))
      = [Some ([String [0x61]], 16)]"
    by code_simp
qed


lemma read_bytes_mid:
  "length pre = p \<Longrightarrow> length bs = n \<Longrightarrow> read_bytes (pre @ bs @ post) p n = bs"
  by (simp add: read_bytes_def)

lemma read_bytes_uninitialised:
  "p + n \<le> k \<Longrightarrow> read_bytes (uninitialised junk k) p n = map junk [p..<p + n]"
  by (simp add: read_bytes_def uninitialised_def take_map drop_map take_upt drop_upt)

text \<open>
  C8 (amended). For a string argument under the signature character \<open>s\<close> in a call that
  fits the array, the message holds at the field's offset the 4-byte length, then that
  many bytes of the string, and then, up to the next 4-byte boundary, the bytes that the
  array held there before the call: the padding is not written.
\<close>

theorem string_field_layout:
  assumes "unat opcode < length (methods (proxy_interface target))"
    and "methods (proxy_interface target) ! unat opcode = sig1 @ CHR ''s'' # sig2"
    and "list_all2 arg_matches sig1 ap1" and "list_all2 arg_matches sig2 ap2"
    and "8 + args_size (ap1 @ Arg_string s # ap2) \<le> 128"
  shows "\<exists>m. wl_proxy_vmarshal junk d target opcode (ap1 @ Arg_string s # ap2) =
        Inr (d\<lparr>connection := (connection d)\<lparr>out_writes := out_writes (connection d) @ [m]\<rparr>\<rparr>)
    \<and> read_bytes m (8 + args_size ap1) 4 = store_word (of_nat (strlen s))
    \<and> read_bytes m (8 + args_size ap1 + 4) (strlen s) = take (strlen s) s
    \<and> read_bytes m (8 + args_size ap1 + 4 + strlen s) (4 * DIV_ROUNDUP (strlen s) 4 - strlen s)
        = map junk [8 + args_size ap1 + 4 + strlen s ..<
                    8 + args_size ap1 + 4 + 4 * DIV_ROUNDUP (strlen s) 4]"
proof -
  let ?ap = "ap1 @ Arg_string s # ap2"
  let ?m = "wire_message junk target opcode ?ap"
  let ?buf = "uninitialised junk 128"
  let ?off = "8 + args_size ap1"
  let ?n = "strlen s"
  let ?r = "4 * DIV_ROUNDUP ?n 4"
  let ?hdr = "store_word (proxy_id target)
       @ store_word (opcode OR push_bit 16 (of_nat (8 + args_size ?ap)))"
  let ?pad = "read_bytes ?buf (?off + 4 + ?n) (?r - ?n)"
  have lenb: "length ?buf = 128" by (rule length_uninitialised)
  have fit: "?off + 4 + ?r + args_size ap2 \<le> 128"
    using assms(5) by (simp add: args_size_append args_size_Cons)
  have m: "list_all2 arg_matches (methods (proxy_interface target) ! unat opcode) ?ap"
    unfolding assms(2) using assms(3,4) by (simp add: list_all2_appendI)
  have run: "wl_proxy_vmarshal junk d target opcode ?ap =
        Inr (d\<lparr>connection := (connection d)\<lparr>out_writes := out_writes (connection d) @ [?m]\<rparr>\<rparr>)"
    using assms(1) m assms(5) by (rule vmarshal_message)
  have len1: "length (fields_layout ?buf 8 ap1) = args_size ap1"
    using fit by (intro length_fields_layout) (simp add: lenb)
  have lenpad: "length ?pad = ?r - ?n"
    using fit by (simp add: read_bytes_def lenb)
  have lens: "length (take ?n s) = ?n"
    using strlen_le [of s] by simp
  have split: "?m = (?hdr @ fields_layout ?buf 8 ap1)
      @ store_word (of_nat ?n) @ take ?n s @ ?pad @ fields_layout ?buf (?off + 4 + ?r) ap2"
    by (simp add: wire_message_def fields_layout_append add.assoc)
  have lenpre: "length (?hdr @ fields_layout ?buf 8 ap1) = ?off"
    by (simp add: length_store_word len1)
  have a: "read_bytes ?m ?off 4 = store_word (of_nat ?n)"
    unfolding split using lenpre by (rule read_bytes_mid) (simp add: length_store_word)
  have b: "read_bytes ?m (?off + 4) ?n = take ?n s"
  proof -
    have "?m = ((?hdr @ fields_layout ?buf 8 ap1) @ store_word (of_nat ?n))
        @ take ?n s @ (?pad @ fields_layout ?buf (?off + 4 + ?r) ap2)"
      unfolding split by simp
    moreover have "length ((?hdr @ fields_layout ?buf 8 ap1) @ store_word (of_nat ?n)) = ?off + 4"
      using lenpre by (simp add: length_store_word)
    ultimately show ?thesis using lens by (simp only: read_bytes_mid)
  qed
  have c: "read_bytes ?m (?off + 4 + ?n) (?r - ?n) = ?pad"
  proof -
    have "?m = ((?hdr @ fields_layout ?buf 8 ap1) @ store_word (of_nat ?n) @ take ?n s)
        @ ?pad @ fields_layout ?buf (?off + 4 + ?r) ap2"
      unfolding split by simp
    moreover have "length ((?hdr @ fields_layout ?buf 8 ap1) @ store_word (of_nat ?n) @ take ?n s)
        = ?off + 4 + ?n"
      using lenpre lens by (simp add: length_store_word)
    ultimately show ?thesis using lenpad by (simp only: read_bytes_mid)
  qed
  have idx: "?off + 4 + ?n + (?r - ?n) = ?off + 4 + ?r"
    using DIV_ROUNDUP_4(1) [of ?n] by simp
  have "?pad = map junk [?off + 4 + ?n ..< ?off + 4 + ?n + (?r - ?n)]"
    using fit DIV_ROUNDUP_4(1) [of ?n] by (intro read_bytes_uninitialised) simp
  then have pad: "?pad = map junk [?off + 4 + ?n ..< ?off + 4 + ?r]"
    by (simp only: idx)
  show ?thesis
    using run a b c pad by (intro exI [of _ ?m]) (simp only: simp_thms)
qed


text \<open>The string "visual" between two words, into an array that held 0xAA everywhere.\<close>

theorem string_field_layout_witness:
  "\<exists>m. wl_proxy_vmarshal (\<lambda>i. 0xAA) (fresh_display 100) (example_proxy 5) 3
          ([Arg_uint 7] @ Arg_string (cstr ''visual'') # [Arg_uint 1]) =
        Inr ((fresh_display 100)\<lparr>connection := (connection (fresh_display 100))\<lparr>out_writes :=
               out_writes (connection (fresh_display 100)) @ [m]\<rparr>\<rparr>)
    \<and> read_bytes m 12 4 = store_word 6
    \<and> read_bytes m 16 6 = cstr ''visual''
    \<and> read_bytes m 22 2 = [0xAA, 0xAA]"
proof -
  have h1: "unat (3 :: uint32_t) < length (methods (proxy_interface (example_proxy 5)))"
    by (simp add: example_proxy_def example_interface_def)
  have h2: "methods (proxy_interface (example_proxy 5)) ! unat (3 :: uint32_t) =
      ''u'' @ CHR ''s'' # ''u''"
    by (simp add: example_proxy_def example_interface_def)
  have h3: "list_all2 arg_matches ''u'' [Arg_uint 7]" and h4: "list_all2 arg_matches ''u'' [Arg_uint 1]"
    by simp_all
  have "args_size ([Arg_uint 7] @ Arg_string (cstr ''visual'') # [Arg_uint 1]) = 20"
    by code_simp
  then have h5: "8 + args_size ([Arg_uint 7] @ Arg_string (cstr ''visual'') # [Arg_uint 1]) \<le> 128"
    by simp
  have a1: "args_size [Arg_uint 7] = 4" by (simp add: args_size_def)
  have n: "strlen (cstr ''visual'') = 6" by code_simp
  have r: "DIV_ROUNDUP 6 4 = 2" by (simp add: DIV_ROUNDUP_def)
  have t: "take 6 (cstr ''visual'') = cstr ''visual''" by (simp add: cstr_def)
  have j: "map (\<lambda>i. 0xAA :: byte) [22..<24] = [0xAA, 0xAA]" by (simp add: upt_rec)
  from string_field_layout [OF h1 h2 h3 h4 h5, of "\<lambda>i. 0xAA" "fresh_display 100"]
  show ?thesis
    unfolding a1 n r t by (simp add: j)
qed

text \<open>
  C8 as stated fails: the one-byte string "a" goes into an array that held 0xAA, and the
  three bytes behind it in the message are 0xAA, not zero.
\<close>

theorem string_padding_counterexample:
  "map (\<lambda>m. read_bytes m 8 8)
     (out_writes (connection (projr
        (wl_proxy_vmarshal (\<lambda>i. 0xAA) (fresh_display 100) (example_proxy 5) 2
           [Arg_string [0x61]]))))
   = [[1, 0, 0, 0, 0x61, 0xAA, 0xAA, 0xAA]]"
  by code_simp

section \<open>Dispatch\<close>

lemma length_scratch:
  "length bs \<le> 128 \<Longrightarrow> length (write_bytes (uninitialised junk 128) 0 bs) = 128"
  by (simp add: write_bytes_def uninitialised_def)

lemma length_uninitialised_128: "length (uninitialised junk 128) = 128"
  by (simp add: uninitialised_def)

lemma scratch_split:
  "write_bytes (uninitialised junk 128) 0 bs = bs @ drop (length bs) (uninitialised junk 128)"
  by (simp add: write_bytes_def)

text \<open>
  A message that fits the array, is buffered whole and is no global: it is copied, the
  handler (if any) is called once with it, and it is consumed.
\<close>

lemma handle_event_in_range:
  assumes "unat sz \<le> 128" and "unat sz \<le> length (in_data (connection d))"
    and "\<not> (object = 1 \<and> opcode = G)"
  shows "handle_event G junk m d object opcode sz =
    Inr ((if event_handler d \<noteq> None
          then d\<lparr>handler_calls := handler_calls d @
                 [(the (event_handler d), object, opcode, sz,
                   drop 8 (take (unat sz) (in_data (connection d))
                           @ drop (unat sz) (uninitialised junk 128)))]\<rparr>
          else d)\<lparr>connection := wl_connection_consume (connection d) (unat sz)\<rparr>)"
proof -
  let ?bs = "take (unat sz) (in_data (connection d))"
  have copy: "wl_connection_copy (connection d) (unat sz) = Some ?bs"
    using assms(2) by (simp add: wl_connection_copy_def)
  have len: "length ?bs = unat sz" using assms(2) by simp
  have p: "write_bytes (uninitialised junk 128) 0 ?bs = ?bs @ drop (unat sz) (uninitialised junk 128)"
    using scratch_split [of junk ?bs] by (simp only: len)
  have ng: "(object = 1 \<and> opcode = G) = False" using assms(3) by simp
  have le: "\<not> 128 < unat sz" using assms(1) by simp
  show ?thesis
    unfolding handle_event_def by (simp only: le if_False copy option.case p Let_def ng) simp
qed

lemma handle_global_no_exit:
  "handle_global m d buf p sz \<noteq> Inl Exit_failure"
  by (simp add: handle_global_def Let_def)

lemma handle_event_no_exit:
  "handle_event G junk m d object opcode sz \<noteq> Inl Exit_failure"
  using handle_global_no_exit
  by (auto simp: handle_event_def Let_def split: option.splits sum.splits)

lemma handle_event_overrun:
  "unat sz \<le> 128 \<Longrightarrow> handle_event G junk m d object opcode sz \<noteq> Inl (Undefined Scratch_overrun)"
  by (auto simp: handle_event_def handle_global_def Let_def split: option.splits sum.splits)

lemma iterate_loop_no_exit:
  assumes "wl_display_iterate_loop GLOBAL junk ms d len = Some r"
  shows "r \<noteq> Inl Exit_failure \<and>
    (0 \<le> len \<longrightarrow> (case r of Inl e \<Rightarrow> True | Inr (d', len') \<Rightarrow> 0 \<le> len'))"
proof (rule wl_display_iterate_loop.raw_induct
    [where P = "\<lambda>G j ms d l r. r \<noteq> Inl Exit_failure \<and>
       (0 \<le> l \<longrightarrow> (case r of Inl e \<Rightarrow> True | Inr (d', len') \<Rightarrow> 0 \<le> len'))"], goal_cases)
  case (1 loop G j ms d len r)
  note IH = "1"(1) and eq = "1"(2)
  show ?case
  proof (cases "0 < len \<and> \<not> len < 8")
    case False
    with eq show ?thesis by (auto split: if_splits)
  next
    case True
    show ?thesis
    proof (cases "wl_connection_copy (connection d) 8")
      case None
      with True eq show ?thesis by auto
    next
      case (Some p)
      show ?thesis
      proof (cases "len < uint (header_size p)")
        case stall: True
        with True Some eq show ?thesis by auto
      next
        case go: False
        show ?thesis
        proof (cases "handle_event G (j 0) (ms 0) d (header_object p) (header_opcode p)
                        (header_size p)")
          case (Inl e)
          with True Some go eq handle_event_no_exit [of G "j 0" "ms 0" d "header_object p"
              "header_opcode p" "header_size p"]
          show ?thesis by auto
        next
          case (Inr d1)
          with True Some go eq
          have rec: "loop G (\<lambda>n. j (Suc n)) (\<lambda>n. ms (Suc n)) d1
              (len - uint (header_size p)) = Some r"
            by auto
          from IH [OF rec] go show ?thesis by simp
        qed
      qed
    qed
  qed
qed (rule assms)

lemma iterate_exit_iff:
  "wl_display_iterate G junk ms d poll_mask = Some (Inl Exit_failure)
     \<longleftrightarrow> wl_connection_data (connection d) poll_mask < 0"
proof
  assume neg: "wl_connection_data (connection d) poll_mask < 0"
  then have "wl_display_iterate_loop G junk ms d (wl_connection_data (connection d) poll_mask)
      = Some (Inr (d, wl_connection_data (connection d) poll_mask))"
    by (subst wl_display_iterate_loop.simps) simp
  with neg show "wl_display_iterate G junk ms d poll_mask = Some (Inl Exit_failure)"
    by (simp add: wl_display_iterate_def)
next
  assume ex: "wl_display_iterate G junk ms d poll_mask = Some (Inl Exit_failure)"
  let ?len = "wl_connection_data (connection d) poll_mask"
  from ex obtain r where r: "wl_display_iterate_loop G junk ms d ?len = Some r"
    by (auto simp: wl_display_iterate_def split: option.splits)
  from iterate_loop_no_exit [OF r]
  have ne: "r \<noteq> Inl Exit_failure"
    and pos: "0 \<le> ?len \<longrightarrow> (case r of Inl e \<Rightarrow> True | Inr (d', len') \<Rightarrow> 0 \<le> len')"
    by simp_all
  show "?len < 0"
  proof (rule ccontr)
    assume "\<not> ?len < 0"
    with pos have "case r of Inl e \<Rightarrow> True | Inr (d', len') \<Rightarrow> 0 \<le> len'" by simp
    with ex r ne show False
      by (auto simp: wl_display_iterate_def split: sum.splits if_splits)
  qed
qed

text \<open>
  C3 (amended). A message whose declared size is at most 128 bytes is copied into the
  32-word array without leaving it. When such a message is buffered whole and is no
  global, the array holds the message in its first bytes, the handler (if one is
  registered) is called once with the words behind the header, and the message is
  consumed. A dispatch pass ends in the fatal exit exactly when the transport reports a
  negative byte count: the size of a message never leads there.
\<close>

theorem dispatch_copy_in_bounds:
  assumes "unat sz \<le> 128"
  shows "handle_event G junk m d object opcode sz \<noteq> Inl (Undefined Scratch_overrun)
    \<and> (unat sz \<le> length (in_data (connection d)) \<and> \<not> (object = 1 \<and> opcode = G) \<longrightarrow>
         length (take (unat sz) (in_data (connection d))
                 @ drop (unat sz) (uninitialised junk 128)) = 128
         \<and> handle_event G junk m d object opcode sz =
            Inr ((if event_handler d \<noteq> None
                  then d\<lparr>handler_calls := handler_calls d @
                         [(the (event_handler d), object, opcode, sz,
                           drop 8 (take (unat sz) (in_data (connection d))
                                   @ drop (unat sz) (uninitialised junk 128)))]\<rparr>
                  else d)\<lparr>connection := wl_connection_consume (connection d) (unat sz)\<rparr>))
    \<and> (wl_display_iterate G junks ms d poll_mask = Some (Inl Exit_failure)
         \<longleftrightarrow> wl_connection_data (connection d) poll_mask < 0)"
proof -
  have a: "handle_event G junk m d object opcode sz \<noteq> Inl (Undefined Scratch_overrun)"
    using assms by (rule handle_event_overrun)
  have b: "length (take (unat sz) (in_data (connection d))
                 @ drop (unat sz) (uninitialised junk 128)) = 128"
    if "unat sz \<le> length (in_data (connection d))"
    using that assms by (simp add: length_uninitialised_128)
  have c: "handle_event G junk m d object opcode sz =
            Inr ((if event_handler d \<noteq> None
                  then d\<lparr>handler_calls := handler_calls d @
                         [(the (event_handler d), object, opcode, sz,
                           drop 8 (take (unat sz) (in_data (connection d))
                                   @ drop (unat sz) (uninitialised junk 128)))]\<rparr>
                  else d)\<lparr>connection := wl_connection_consume (connection d) (unat sz)\<rparr>)"
    if "unat sz \<le> length (in_data (connection d))" and "\<not> (object = 1 \<and> opcode = G)"
    using assms that by (rule handle_event_in_range)
  have e: "wl_display_iterate G junks ms d poll_mask = Some (Inl Exit_failure)
         \<longleftrightarrow> wl_connection_data (connection d) poll_mask < 0"
    by (rule iterate_exit_iff)
  from a b c e show ?thesis by (intro conjI impI) (simp_all only: simp_thms)
qed


text \<open>The event of 16 bytes, buffered whole in a session with a handler.\<close>

theorem dispatch_copy_in_bounds_witness:
  "handle_event 3 (\<lambda>i. 0) all_ok (receiving small_event) 2 0 16 \<noteq> Inl (Undefined Scratch_overrun)
   \<and> length (take (unat (16 :: uint32_t)) (in_data (connection (receiving small_event)))
             @ drop (unat (16 :: uint32_t)) (uninitialised (\<lambda>i. 0) 128)) = 128
   \<and> handle_event 3 (\<lambda>i. 0) all_ok (receiving small_event) 2 0 16 =
        Inr ((if event_handler (receiving small_event) \<noteq> None
              then (receiving small_event)\<lparr>handler_calls :=
                     handler_calls (receiving small_event) @
                     [(the (event_handler (receiving small_event)), 2, 0, 16,
                       drop 8 (take (unat (16 :: uint32_t))
                                 (in_data (connection (receiving small_event)))
                               @ drop (unat (16 :: uint32_t)) (uninitialised (\<lambda>i. 0) 128)))]\<rparr>
              else receiving small_event)
             \<lparr>connection :=
                wl_connection_consume (connection (receiving small_event))
                  (unat (16 :: uint32_t))\<rparr>)
   \<and> wl_display_iterate 3 (\<lambda>k i. 0) (\<lambda>k. all_ok) (receiving small_event) 1
        \<noteq> Some (Inl Exit_failure)"
proof -
  have h: "unat (16 :: uint32_t) \<le> 128" by simp
  have buffered: "unat (16 :: uint32_t) \<le> length (in_data (connection (receiving small_event)))"
    by code_simp
  have other: "\<not> ((2 :: uint32_t) = 1 \<and> (0 :: uint32_t) = 3)" by simp
  have count: "\<not> wl_connection_data (connection (receiving small_event)) 1 < 0"
    by (simp add: wl_connection_data_def receiving_def arrive_def empty_connection_def)
  from dispatch_copy_in_bounds [OF h, of 3 "\<lambda>i. 0" all_ok "receiving small_event" 2 0
      "\<lambda>k i. 0" "\<lambda>k. all_ok" 1] buffered other count
  show ?thesis by blast
qed

text \<open>
  C3 as stated fails. A header that declares 132 bytes with 12 bytes buffered ends the
  pass without an error; with all 132 bytes buffered the message is copied past the
  array, and the pass does not end in the fatal exit.
\<close>

theorem dispatch_copy_counterexample:
  "wl_display_iterate 3 (\<lambda>k i. 0) (\<lambda>k. all_ok) (receiving (take 12 (event_of_size 132))) 1
     = Some (Inr (receiving (take 12 (event_of_size 132))))
   \<and> wl_display_iterate 3 (\<lambda>k i. 0) (\<lambda>k. all_ok) (receiving (event_of_size 132)) 1
     = Some (Inl (Undefined Scratch_overrun))"
proof (intro conjI)
  show "wl_display_iterate 3 (\<lambda>k i. 0) (\<lambda>k. all_ok) (receiving (take 12 (event_of_size 132))) 1
     = Some (Inr (receiving (take 12 (event_of_size 132))))"
    by code_simp
  show "wl_display_iterate 3 (\<lambda>k i. 0) (\<lambda>k. all_ok) (receiving (event_of_size 132)) 1
     = Some (Inl (Undefined Scratch_overrun))"
    by code_simp
qed










end
